theory Spec2Isabelle
  imports Main "HOL-Library.AList"
begin

section \<open>Values, raw records and exceptions\<close>

text \<open>
  The module \<^verbatim>\<open>polarion/workitem.py\<close> mirrors a remote work item. Field values are
  Python values: \<^verbatim>\<open>None\<close>, booleans, integers, strings and compound values (a text, an
  enum option id). A compound value has a class and an ordered mapping from field
  names to values.
\<close>

datatype pyval =
    PNone
  | PBool bool
  | PInt int
  | PStr string
  | PObj string "(string \<times> pyval) list"

text \<open>
  The source compares field values with Python's \<^verbatim>\<open>!=\<close>, which is the negation of
  \<^verbatim>\<open>==\<close> on these values. Python's \<^verbatim>\<open>==\<close> is not structural equality: \<^verbatim>\<open>bool\<close> is a
  subclass of \<^verbatim>\<open>int\<close>, so \<^verbatim>\<open>True == 1\<close> and \<^verbatim>\<open>False == 0\<close>, while \<^verbatim>\<open>None\<close> and strings
  equal only themselves. Two compound values are equal when they are of the same
  class and their mappings are equal as dicts: the same keys, in any order, with
  equal values.
\<close>

fun as_int :: "pyval \<Rightarrow> int option" where
  "as_int (PBool b) = Some (if b then 1 else 0)"
| "as_int (PInt i) = Some i"
| "as_int v = None"

function py_eq :: "pyval \<Rightarrow> pyval \<Rightarrow> bool" where
  "py_eq PNone b = (b = PNone)"
| "py_eq (PBool x) b = (as_int b = Some (if x then 1 else 0))"
| "py_eq (PInt i) b = (as_int b = Some i)"
| "py_eq (PStr s) b = (b = PStr s)"
| "py_eq (PObj c f) b =
     (case b of
        PObj c' g \<Rightarrow>
          c = c' \<and> set (map fst f) = set (map fst g) \<and>
          list_all (\<lambda>k. case map_of f k of
                           None \<Rightarrow> False
                         | Some x \<Rightarrow> (case map_of g k of None \<Rightarrow> False | Some y \<Rightarrow> py_eq x y))
                   (map fst f)
      | _ \<Rightarrow> False)"
  by pat_completeness auto
termination
proof (relation "measure (\<lambda>(a, b). size a)")
  show "wf (measure (\<lambda>(a, b). size a))" by simp
next
  fix c :: string and f :: "(string \<times> pyval) list" and b c' g k x y
  assume "map_of f k = Some x"
  then have "(k, x) \<in> set f" by (rule map_of_SomeD)
  then have "size x < size (PObj c f)"
    by (induction f) auto
  then show "((x, y), (PObj c f, b)) \<in> measure (\<lambda>(a, b). size a)" by simp
qed

text \<open>
  A Python \<^verbatim>\<open>dict\<close> keeps insertion order and replaces the value of a key it already
  has in place: this is \<open>AList.update\<close>. Reading a key is \<open>map_of\<close>.

  The raw record fetched from the server (\<^verbatim>\<open>self._polarion_item\<close>) keeps its fields in
  one ordered mapping, the only entry of its \<^verbatim>\<open>__dict__\<close>; the nested loops
  \<^verbatim>\<open>for attr, value in item.__dict__.items(): for key in value:\<close> therefore visit the
  field names of the record in order, and an attribute read on the record is a lookup
  in that mapping.
\<close>

type_synonym pydict = "(string \<times> pyval) list"

type_synonym raw_item = pydict

datatype exn =
    StopIteration
  | AttributeError
  | IndexError
  | PolarionAccessError
  | Fault string

text \<open>Truth value of a Python value, as \<^verbatim>\<open>not item.unresolvable\<close> tests it.\<close>

fun truthy :: "pyval \<Rightarrow> bool" where
  "truthy PNone = False"
| "truthy (PBool b) = b"
| "truthy (PInt i) = (i \<noteq> 0)"
| "truthy (PStr s) = (s \<noteq> [])"
| "truthy (PObj c fs) = (fs \<noteq> [])"

definition keys :: "pydict \<Rightarrow> string list" where
  "keys d = map fst d"

text \<open>\<^verbatim>\<open>getattr(obj, key)\<close>: the value, or \<^verbatim>\<open>AttributeError\<close> when there is none.\<close>

definition getattr :: "pydict \<Rightarrow> string \<Rightarrow> exn + pyval" where
  "getattr d k = (case map_of d k of None \<Rightarrow> Inl AttributeError | Some v \<Rightarrow> Inr v)"

text \<open>
  Reading and writing an attribute of a value (\<^verbatim>\<open>value.id\<close>, \<^verbatim>\<open>value.id = ...\<close>): a
  compound value gives or takes the field, every other value raises
  \<^verbatim>\<open>AttributeError\<close>.
\<close>

fun obj_getattr :: "pyval \<Rightarrow> string \<Rightarrow> exn + pyval" where
  "obj_getattr (PObj c f) k = getattr f k"
| "obj_getattr v k = Inl AttributeError"

fun obj_setattr :: "pyval \<Rightarrow> string \<Rightarrow> pyval \<Rightarrow> exn + pyval" where
  "obj_setattr (PObj c f) k v = Inr (PObj c (AList.update k v f))"
| "obj_setattr x k v = Inl AttributeError"

section \<open>The work item and the remote service\<close>

text \<open>
  The state of a \<^verbatim>\<open>Workitem\<close> object, as far as change tracking reads and writes it:
  the flag \<^verbatim>\<open>_postpone_save\<close>, the raw record \<^verbatim>\<open>_polarion_item\<close> (Python \<^verbatim>\<open>None\<close> is
  \<open>None\<close>), the deep copy \<^verbatim>\<open>_original_polarion\<close> (\<open>None\<close> while the attribute is not
  set), and the public attributes that \<^verbatim>\<open>setattr(self, key, ...)\<close> creates and the
  caller rebinds (the shadow). Values have value semantics here: a change of a nested
  object in place (\<^verbatim>\<open>self.status.id = ...\<close>) is modelled as rebinding the attribute to
  the changed value. In the source the raw record may share that object; \<^verbatim>\<open>save\<close> and
  the reload read only the field names and the \<^verbatim>\<open>uri\<close> of the raw record, and the
  snapshot is a deep copy, so the raw record is left as it is.
\<close>

record workitem =
  postpone_save :: bool
  polarion_item :: "raw_item option"
  original_polarion :: "raw_item option"
  attrs :: pydict

text \<open>
  The Tracker service is outside the module. It is a parameter: a server state of any
  type, and the remote operations that change tracking and the setters use, each
  returning its result (or the exception it raises) and the server's next state.
\<close>

record 's tracker =
  getWorkItemByUri :: "'s \<Rightarrow> pyval \<Rightarrow> (exn + raw_item option) \<times> 's"
  updateWorkItem :: "'s \<Rightarrow> pydict \<Rightarrow> (exn + unit) \<times> 's"
  getAvailableEnumOptionIdsForId :: "'s \<Rightarrow> pyval \<Rightarrow> string \<Rightarrow> (exn + pyval list) \<times> 's"

datatype remote_call =
    GetWorkItemByUri pyval
  | UpdateWorkItem pydict
  | GetAvailableEnumOptionIdsForId pyval string

text \<open>
  A run threads the object, the server and the list of remote calls issued so far.
  The list is bookkeeping of the model: the source keeps no such log.
\<close>

record 's world =
  item :: workitem
  server :: 's
  calls :: "remote_call list"

definition set_item :: "(workitem \<Rightarrow> workitem) \<Rightarrow> 's world \<Rightarrow> 's world" where
  "set_item f W = W\<lparr>item := f (item W)\<rparr>"

text \<open>
  \<^verbatim>\<open>for key in value: setattr(self, key, value[key])\<close>
\<close>

fun project_fields :: "raw_item \<Rightarrow> string list \<Rightarrow> pydict \<Rightarrow> pydict" where
  "project_fields it [] a = a"
| "project_fields it (k # ks) a =
     (case map_of it k of
        None \<Rightarrow> project_fields it ks a
      | Some v \<Rightarrow> project_fields it ks (AList.update k v a))"

text \<open>
  \<^verbatim>\<open>
  def _buildWorkitemFromPolarion(self):
      if self._polarion_item is not None and not self._polarion_item.unresolvable:
          self._original_polarion = copy.deepcopy(self._polarion_item)
          if self._postpone_save is False:
              for attr, value in self._polarion_item.__dict__.items():
                  for key in value:
                      setattr(self, key, value[key])
      else:
          raise PolarionAccessError(...)
  \<close>
\<close>

definition buildWorkitemFromPolarion :: "workitem \<Rightarrow> (exn + unit) \<times> workitem" where
  "buildWorkitemFromPolarion w =
     (case polarion_item w of
        None \<Rightarrow> (Inl PolarionAccessError, w)
      | Some it \<Rightarrow>
          (case getattr it ''unresolvable'' of
             Inl e \<Rightarrow> (Inl e, w)
           | Inr u \<Rightarrow>
               if \<not> truthy u then
                 (let w1 = w\<lparr>original_polarion := Some it\<rparr>
                  in if postpone_save w1 = False
                     then (Inr (), w1\<lparr>attrs := project_fields it (keys it) (attrs w1)\<rparr>)
                     else (Inr (), w1))
               else (Inl PolarionAccessError, w)))"

text \<open>
  \<^verbatim>\<open>
  def _reloadFromPolarion(self):
      service = self._polarion.getService('Tracker')
      self._polarion_item = service.getWorkItemByUri(self._polarion_item.uri)
      self._buildWorkitemFromPolarion()
  \<close>
\<close>

definition reloadFromPolarion :: "'s tracker \<Rightarrow> 's world \<Rightarrow> (exn + unit) \<times> 's world" where
  "reloadFromPolarion svc W =
     (case polarion_item (item W) of
        None \<Rightarrow> (Inl AttributeError, W)
      | Some it \<Rightarrow>
          (case getattr it ''uri'' of
             Inl e \<Rightarrow> (Inl e, W)
           | Inr u \<Rightarrow>
               (case getWorkItemByUri svc (server W) u of
                  (r, s') \<Rightarrow>
                    (let W1 = W\<lparr>server := s', calls := calls W @ [GetWorkItemByUri u]\<rparr>
                     in case r of
                          Inl e \<Rightarrow> (Inl e, W1)
                        | Inr it' \<Rightarrow>
                            (case buildWorkitemFromPolarion ((item W1)\<lparr>polarion_item := it'\<rparr>) of
                               (r', w') \<Rightarrow> (r', W1\<lparr>item := w'\<rparr>))))))"

text \<open>
  The loop of \<^verbatim>\<open>save\<close> over the field names of the raw record:
  \<^verbatim>\<open>
  current_value = getattr(self, key)
  prev_value = getattr(self._original_polarion, key)
  if current_value != prev_value:
      updated_item[key] = current_value
  \<close>
\<close>

fun changed_fields :: "workitem \<Rightarrow> string list \<Rightarrow> pydict \<Rightarrow> exn + pydict" where
  "changed_fields w [] upd = Inr upd"
| "changed_fields w (k # ks) upd =
     (case getattr (attrs w) k of
        Inl e \<Rightarrow> Inl e
      | Inr current_value \<Rightarrow>
          (case original_polarion w of
             None \<Rightarrow> Inl AttributeError
           | Some orig \<Rightarrow>
               (case getattr orig k of
                  Inl e \<Rightarrow> Inl e
                | Inr prev_value \<Rightarrow>
                    changed_fields w ks
                      (if \<not> py_eq current_value prev_value
                       then AList.update k current_value upd else upd))))"

text \<open>
  \<^verbatim>\<open>
  def save(self):
      if self._postpone_save:
          return
      updated_item = {}
      for attr, value in self._polarion_item.__dict__.items():
          for key in value:
              ...
      if len(updated_item) > 0:
          updated_item['uri'] = self.uri
          service = self._polarion.getService('Tracker')
          service.updateWorkItem(updated_item)
          self._reloadFromPolarion()
  \<close>
\<close>

definition save :: "'s tracker \<Rightarrow> 's world \<Rightarrow> (exn + unit) \<times> 's world" where
  "save svc W =
     (if postpone_save (item W) then (Inr (), W)
      else
        (case polarion_item (item W) of
           None \<Rightarrow> (Inl AttributeError, W)
         | Some it \<Rightarrow>
             (case changed_fields (item W) (keys it) [] of
                Inl e \<Rightarrow> (Inl e, W)
              | Inr updated_item \<Rightarrow>
                  if length updated_item > 0 then
                    (case getattr (attrs (item W)) ''uri'' of
                       Inl e \<Rightarrow> (Inl e, W)
                     | Inr u \<Rightarrow>
                         (let updated_item' = AList.update ''uri'' u updated_item
                          in case updateWorkItem svc (server W) updated_item' of
                               (r, s') \<Rightarrow>
                                 (let W1 = W\<lparr>server := s',
                                            calls := calls W @ [UpdateWorkItem updated_item']\<rparr>
                                  in case r of
                                       Inl e \<Rightarrow> (Inl e, W1)
                                     | Inr _ \<Rightarrow> reloadFromPolarion svc W1)))
                  else (Inr (), W))))"

text \<open>
  \<^verbatim>\<open>
  def __enter__(self):
      self._postpone_save = True
      return self

  def __exit__(self, exc_type, exc_val, exc_tb):
      self._postpone_save = False
      self.save()
  \<close>
\<close>

definition enter :: "'s world \<Rightarrow> 's world" where
  "enter W = set_item (\<lambda>w. w\<lparr>postpone_save := True\<rparr>) W"

definition exit_scope :: "'s tracker \<Rightarrow> 's world \<Rightarrow> (exn + unit) \<times> 's world" where
  "exit_scope svc W = save svc (set_item (\<lambda>w. w\<lparr>postpone_save := False\<rparr>) W)"

text \<open>
  The statement \<^verbatim>\<open>with workitem: body\<close>. Python calls \<^verbatim>\<open>__exit__\<close> whether the body
  returns or raises; an exception of \<^verbatim>\<open>__exit__\<close> replaces the body's, and since
  \<^verbatim>\<open>__exit__\<close> returns \<^verbatim>\<open>None\<close> the body's exception is raised again otherwise.
\<close>

definition with_scope ::
  "'s tracker \<Rightarrow> ('s world \<Rightarrow> (exn + unit) \<times> 's world) \<Rightarrow> 's world \<Rightarrow> (exn + unit) \<times> 's world" where
  "with_scope svc body W =
     (case body (enter W) of
        (r, W2) \<Rightarrow>
          (case exit_scope svc W2 of
             (r', W3) \<Rightarrow> (case r' of Inl e \<Rightarrow> Inl e | Inr _ \<Rightarrow> r, W3)))"

text \<open>
  Construction, on the two paths of \<^verbatim>\<open>__init__\<close> that load an existing record: from
  a uri (\<^verbatim>\<open>getWorkItemByUri\<close>, any exception of which becomes \<^verbatim>\<open>PolarionAccessError\<close>)
  and from a record the caller already holds (\<^verbatim>\<open>polarion_workitem\<close>). Both read
  \<^verbatim>\<open>self._polarion_item.id\<close> and end with \<^verbatim>\<open>self._buildWorkitemFromPolarion()\<close>. The
  project is taken as supplied by the caller; \<^verbatim>\<open>_id\<close> and \<^verbatim>\<open>_project\<close> are not read by
  change tracking and are not part of the state.
\<close>

datatype init_arg = ByUri pyval | ByItem raw_item

definition init_state :: "'s \<Rightarrow> 's world" where
  "init_state s =
     \<lparr>item = \<lparr>postpone_save = False, polarion_item = None,
               original_polarion = None, attrs = []\<rparr>,
      server = s, calls = []\<rparr>"

definition read_id_and_build :: "'s world \<Rightarrow> (exn + unit) \<times> 's world" where
  "read_id_and_build W =
     (case polarion_item (item W) of
        None \<Rightarrow> (Inl AttributeError, W)
      | Some it \<Rightarrow>
          (case getattr it ''id'' of
             Inl e \<Rightarrow> (Inl e, W)
           | Inr _ \<Rightarrow>
               (case buildWorkitemFromPolarion (item W) of
                  (r, w') \<Rightarrow> (r, W\<lparr>item := w'\<rparr>))))"

fun init :: "'s tracker \<Rightarrow> init_arg \<Rightarrow> 's \<Rightarrow> (exn + unit) \<times> 's world" where
  "init svc (ByUri u) s =
     (let W = init_state s in
      if truthy u then
        (case getWorkItemByUri svc s u of
           (r, s') \<Rightarrow>
             (let W1 = W\<lparr>server := s', calls := calls W @ [GetWorkItemByUri u]\<rparr>
              in case r of
                   Inl e \<Rightarrow> (Inl PolarionAccessError, W1)
                 | Inr it \<Rightarrow> read_id_and_build (set_item (\<lambda>w. w\<lparr>polarion_item := it\<rparr>) W1)))
      else (Inl PolarionAccessError, W))"
| "init svc (ByItem it) s =
     read_id_and_build (set_item (\<lambda>w. w\<lparr>polarion_item := Some it\<rparr>) (init_state s))"

text \<open>
  Field mutations. The caller rebinds a public attribute (\<^verbatim>\<open>workitem.title = ...\<close>), or
  calls a setter that rebinds one and saves:
  \<^verbatim>\<open>
  def setDescription(self, description):
      self.description = self._polarion.TextType(
          content=description, type='text/html', contentLossy=False)
      self.save()
  \<close>
\<close>

definition setattr_self :: "string \<Rightarrow> pyval \<Rightarrow> 's world \<Rightarrow> 's world" where
  "setattr_self k v W = set_item (\<lambda>w. w\<lparr>attrs := AList.update k v (attrs w)\<rparr>) W"

definition TextType :: "string \<Rightarrow> pyval" where
  "TextType d =
     PObj ''Text''
       [(''type'', PStr ''text/html''), (''content'', PStr d), (''contentLossy'', PBool False)]"

definition setDescription :: "'s tracker \<Rightarrow> string \<Rightarrow> 's world \<Rightarrow> (exn + unit) \<times> 's world" where
  "setDescription svc d W = save svc (setattr_self ''description'' (TextType d) W)"

text \<open>
  \<^verbatim>\<open>
  def getAvailableStatus(self):
      available_status = []
      service = self._polarion.getService('Tracker')
      av_status = service.getAvailableEnumOptionIdsForId(self.uri, 'status')
      for status in av_status:
          available_status.append(status.id)
      return available_status
  \<close>
\<close>

fun option_ids :: "pyval list \<Rightarrow> exn + pyval list" where
  "option_ids [] = Inr []"
| "option_ids (status # av) =
     (case obj_getattr status ''id'' of
        Inl e \<Rightarrow> Inl e
      | Inr i \<Rightarrow> (case option_ids av of Inl e \<Rightarrow> Inl e | Inr is \<Rightarrow> Inr (i # is)))"

definition getAvailableStatus :: "'s tracker \<Rightarrow> 's world \<Rightarrow> (exn + pyval list) \<times> 's world" where
  "getAvailableStatus svc W =
     (case getattr (attrs (item W)) ''uri'' of
        Inl e \<Rightarrow> (Inl e, W)
      | Inr u \<Rightarrow>
          (case getAvailableEnumOptionIdsForId svc (server W) u ''status'' of
             (r, s') \<Rightarrow>
               (let W1 = W\<lparr>server := s',
                          calls := calls W @ [GetAvailableEnumOptionIdsForId u ''status'']\<rparr>
                in case r of
                     Inl e \<Rightarrow> (Inl e, W1)
                   | Inr av_status \<Rightarrow> (option_ids av_status, W1))))"

text \<open>
  \<^verbatim>\<open>
  def setStatus(self, status):
      if status in self.getAvailableStatus():
          self.status.id = status
          self.save()
  \<close>
  The test \<^verbatim>\<open>status in list\<close> compares with \<^verbatim>\<open>==\<close>.
\<close>

definition setStatus :: "'s tracker \<Rightarrow> pyval \<Rightarrow> 's world \<Rightarrow> (exn + unit) \<times> 's world" where
  "setStatus svc status W =
     (case getAvailableStatus svc W of
        (Inl e, W1) \<Rightarrow> (Inl e, W1)
      | (Inr available_status, W1) \<Rightarrow>
          if list_ex (py_eq status) available_status then
            (case getattr (attrs (item W1)) ''status'' of
               Inl e \<Rightarrow> (Inl e, W1)
             | Inr st \<Rightarrow>
                 (case obj_setattr st ''id'' status of
                    Inl e \<Rightarrow> (Inl e, W1)
                  | Inr st' \<Rightarrow> save svc (setattr_self ''status'' st' W1)))
          else (Inr (), W1))"

text \<open>
  \<^verbatim>\<open>
  def setResolution(self, resolution):
      if self.resolution is not None:
          self.resolution.id = resolution
      else:
          self.resolution = self._polarion.EnumOptionIdType(
              id=resolution)
      self.save()
  \<close>
\<close>

definition EnumOptionIdType :: "pyval \<Rightarrow> pyval" where
  "EnumOptionIdType i = PObj ''EnumOptionId'' [(''id'', i)]"

definition setResolution :: "'s tracker \<Rightarrow> pyval \<Rightarrow> 's world \<Rightarrow> (exn + unit) \<times> 's world" where
  "setResolution svc resolution W =
     (case getattr (attrs (item W)) ''resolution'' of
        Inl e \<Rightarrow> (Inl e, W)
      | Inr cur \<Rightarrow>
          if cur \<noteq> PNone then
            (case obj_setattr cur ''id'' resolution of
               Inl e \<Rightarrow> (Inl e, W)
             | Inr cur' \<Rightarrow> save svc (setattr_self ''resolution'' cur' W))
          else save svc (setattr_self ''resolution'' (EnumOptionIdType resolution) W))"

text \<open>
  The field mutations: rebinding an attribute, and the three setters of the class
  that change a field and save.
\<close>

datatype mutation =
    SetAttr string pyval
  | SetDescription string
  | SetStatus pyval
  | SetResolution pyval

fun apply_mutation :: "'s tracker \<Rightarrow> mutation \<Rightarrow> 's world \<Rightarrow> (exn + unit) \<times> 's world" where
  "apply_mutation svc (SetAttr k v) W = (Inr (), setattr_self k v W)"
| "apply_mutation svc (SetDescription d) W = setDescription svc d W"
| "apply_mutation svc (SetStatus st) W = setStatus svc st W"
| "apply_mutation svc (SetResolution r) W = setResolution svc r W"

text \<open>
  Two scopes, one inside the other, on the same entity:
  \<^verbatim>\<open>
  with workitem:
      with workitem:
          inner
      rest
  \<close>
  The body of the outer scope is the inner \<^verbatim>\<open>with\<close> statement followed by the rest.
\<close>

definition inner_then ::
  "'s tracker \<Rightarrow> ('s world \<Rightarrow> (exn + unit) \<times> 's world) \<Rightarrow>
   ('s world \<Rightarrow> (exn + unit) \<times> 's world) \<Rightarrow> 's world \<Rightarrow> (exn + unit) \<times> 's world" where
  "inner_then svc inner rest W =
     (case with_scope svc inner W of
        (Inl e, W') \<Rightarrow> (Inl e, W')
      | (Inr _, W') \<Rightarrow> rest W')"

definition nested_scopes ::
  "'s tracker \<Rightarrow> ('s world \<Rightarrow> (exn + unit) \<times> 's world) \<Rightarrow>
   ('s world \<Rightarrow> (exn + unit) \<times> 's world) \<Rightarrow> 's world \<Rightarrow> (exn + unit) \<times> 's world" where
  "nested_scopes svc inner rest W = with_scope svc (inner_then svc inner rest) W"

text \<open>A sequence of statements: the first exception ends it.\<close>

fun run_mutations :: "'s tracker \<Rightarrow> mutation list \<Rightarrow> 's world \<Rightarrow> (exn + unit) \<times> 's world" where
  "run_mutations svc [] W = (Inr (), W)"
| "run_mutations svc (m # ms) W =
     (case apply_mutation svc m W of
        (Inl e, W') \<Rightarrow> (Inl e, W')
      | (Inr _, W') \<Rightarrow> run_mutations svc ms W')"

section \<open>The iterator over linked work items\<close>

text \<open>
  A raw edge is an object read through \<^verbatim>\<open>obj.role.id\<close> and \<^verbatim>\<open>obj.workItemURI\<close>. Either
  read may raise \<^verbatim>\<open>AttributeError\<close>: \<open>role_id = None\<close> stands for an edge without the
  role sub-structure, \<open>workItemURI = None\<close> for an edge without the target attribute.
  The container \<^verbatim>\<open>linkedWorkItems\<close> is Python \<^verbatim>\<open>None\<close> (outer \<open>None\<close>), an object
  without the attribute \<^verbatim>\<open>LinkedWorkItem\<close> (inner \<open>None\<close>), or an object holding the
  list of edges.
\<close>

record raw_edge =
  role_id :: "string option"
  workItemURI :: "string option"

datatype LinkedWorkitem = LinkedWorkitem (role: string) (uri: string)

record WorkItemIterator =
  linkedWorkItems :: "raw_edge list option option"
  index :: nat
  disallowed_roles :: "string list option"
  allowed_roles :: "string list option"

text \<open>
  The argument \<^verbatim>\<open>roles\<close>: \<^verbatim>\<open>None\<close>, one string (wrapped into a tuple by the
  constructor), or a sequence of strings.
\<close>

datatype roles_arg = NoRoles | OneRole string | Roles "string list"

text \<open>
  \<^verbatim>\<open>
  for role in roles:
      if role.startswith('~'):
          if self._disallowed_roles is None:
              self._disallowed_roles = []
          self._disallowed_roles.append(role[1:])
      else:
          if self._allowed_roles is None:
              self._allowed_roles = []
          self._allowed_roles.append(role)
  \<close>
\<close>

definition append_role :: "string list option \<Rightarrow> string \<Rightarrow> string list option" where
  "append_role l r = (case l of None \<Rightarrow> Some [r] | Some rs \<Rightarrow> Some (rs @ [r]))"

fun add_roles :: "string list \<Rightarrow> WorkItemIterator \<Rightarrow> WorkItemIterator" where
  "add_roles [] it = it"
| "add_roles (r # rs) it =
     (case r of
        c # rest \<Rightarrow>
          if c = CHR ''~''
          then add_roles rs (it\<lparr>disallowed_roles := append_role (disallowed_roles it) rest\<rparr>)
          else add_roles rs (it\<lparr>allowed_roles := append_role (allowed_roles it) r\<rparr>)
      | [] \<Rightarrow> add_roles rs (it\<lparr>allowed_roles := append_role (allowed_roles it) r\<rparr>))"

definition new_iterator :: "raw_edge list option option \<Rightarrow> roles_arg \<Rightarrow> WorkItemIterator" where
  "new_iterator lwi roles =
     (let it = \<lparr>linkedWorkItems = lwi, index = 0,
                disallowed_roles = None, allowed_roles = None\<rparr>
      in case roles of
           NoRoles \<Rightarrow> it
         | OneRole r \<Rightarrow> add_roles [r] it
         | Roles rs \<Rightarrow> add_roles rs it)"

text \<open>
  The test of \<^verbatim>\<open>__next__\<close>:
  \<^verbatim>\<open>
  (self._disallowed_roles is None or role not in self._disallowed_roles) and
  (self._allowed_roles is None or role in self._allowed_roles)
  \<close>
\<close>

definition role_passes :: "WorkItemIterator \<Rightarrow> string \<Rightarrow> bool" where
  "role_passes it r =
     ((case disallowed_roles it of None \<Rightarrow> True | Some d \<Rightarrow> r \<notin> set d) \<and>
      (case allowed_roles it of None \<Rightarrow> True | Some a \<Rightarrow> r \<in> set a))"

text \<open>
  \<^verbatim>\<open>
  try:
      role = obj.role.id
  except AttributeError:
      role = 'NA'
  \<close>
\<close>

definition role_of :: "raw_edge \<Rightarrow> string" where
  "role_of obj = (case role_id obj of None \<Rightarrow> ''NA'' | Some r \<Rightarrow> r)"

definition getitem :: "'a list \<Rightarrow> nat \<Rightarrow> exn + 'a" where
  "getitem xs i = (if i < length xs then Inr (xs ! i) else Inl IndexError)"

text \<open>
  The loop \<^verbatim>\<open>while True:\<close> of \<^verbatim>\<open>__next__\<close>, over the list \<^verbatim>\<open>LinkedWorkItem\<close> of the
  container. It ends: every round that does not return or raise moves the cursor
  one edge forward.
\<close>

function scan :: "raw_edge list \<Rightarrow> WorkItemIterator \<Rightarrow> (exn + LinkedWorkitem) \<times> WorkItemIterator" where
  "scan es it =
     (if index it < length es then
        (case getitem es (index it) of
           Inl e \<Rightarrow> (Inl e, it)
         | Inr obj \<Rightarrow>
             (case workItemURI obj of
                None \<Rightarrow> (Inl AttributeError, it\<lparr>index := index it + 1\<rparr>)
              | Some u \<Rightarrow>
                  if role_passes it (role_of obj)
                  then (Inr (LinkedWorkitem (role_of obj) u), it\<lparr>index := index it + 1\<rparr>)
                  else scan es (it\<lparr>index := index it + 1\<rparr>)))
      else (Inl StopIteration, it))"
  by pat_completeness auto
termination
  by (relation "measure (\<lambda>(es, it). length es - index it)") auto

declare scan.simps [simp del]

text \<open>
  \<^verbatim>\<open>
  def __next__(self) -> LinkedWorkitem:
      if self._linkedWorkItems is None:
          raise StopIteration
      try:
          while True: ...
      except IndexError:
          raise StopIteration
      except AttributeError:
          raise StopIteration
  \<close>
\<close>

definition handle_next :: "exn + LinkedWorkitem \<Rightarrow> exn + LinkedWorkitem" where
  "handle_next r =
     (case r of
        Inl e \<Rightarrow> if e = IndexError \<or> e = AttributeError then Inl StopIteration else Inl e
      | Inr x \<Rightarrow> Inr x)"

definition next_item :: "WorkItemIterator \<Rightarrow> (exn + LinkedWorkitem) \<times> WorkItemIterator" where
  "next_item it =
     (case linkedWorkItems it of
        None \<Rightarrow> (Inl StopIteration, it)
      | Some c \<Rightarrow>
          (case c of
             None \<Rightarrow> (handle_next (Inl AttributeError), it)
           | Some es \<Rightarrow> (case scan es it of (r, it') \<Rightarrow> (handle_next r, it'))))"

text \<open>
  Consuming the iterator, as \<^verbatim>\<open>list(iterator)\<close> or a \<^verbatim>\<open>for\<close> loop does: call
  \<^verbatim>\<open>__next__\<close> until it raises \<^verbatim>\<open>StopIteration\<close>; any other exception leaves the loop
  and reaches the caller. Every value returned moves the cursor forward, which bounds
  the number of rounds.
\<close>

function to_list :: "WorkItemIterator \<Rightarrow> exn + LinkedWorkitem list" where
  "to_list it =
     (case next_item it of
        (Inl e, it') \<Rightarrow> if e = StopIteration then Inr [] else Inl e
      | (Inr x, it') \<Rightarrow>
          (case to_list it' of
             Inl e \<Rightarrow> Inl e
           | Inr xs \<Rightarrow> Inr (x # xs)))"
  by pat_completeness auto
termination
proof (relation "measure (\<lambda>it. case linkedWorkItems it of
                                  Some (Some es) \<Rightarrow> length es - index it
                                | _ \<Rightarrow> 0)")
  show "wf (measure (\<lambda>it. case linkedWorkItems it of
                                  Some (Some es) \<Rightarrow> length es - index it
                                | _ \<Rightarrow> 0))"
    by simp
next
  fix it :: WorkItemIterator and x1 x2 x
  assume a: "(x1, x2) = next_item it" "x1 = Inr x"
  have adv: "scan es i = (Inr r, i') \<Longrightarrow>
      linkedWorkItems i' = linkedWorkItems i \<and> index i < index i' \<and> index i' \<le> length es"
    for es i r i'
  proof (induction es i rule: scan.induct)
    case (1 es it)
    show ?case
    proof (cases "index it < length es")
      case False
      with "1.prems" show ?thesis by (simp add: scan.simps[of es it])
    next
      case True
      note lt = this
      show ?thesis
      proof (cases "workItemURI (es ! index it)")
        case None
        with lt "1.prems" show ?thesis by (simp add: scan.simps[of es it] getitem_def)
      next
        case (Some u)
        show ?thesis
        proof (cases "role_passes it (role_of (es ! index it))")
          case True
          with lt Some "1.prems" show ?thesis
            by (auto simp add: scan.simps[of es it] getitem_def)
        next
          case False
          with lt Some "1.prems" have "scan es (it\<lparr>index := index it + 1\<rparr>) = (Inr r, i')"
            by (simp add: scan.simps[of es it] getitem_def)
          from "1.IH"[OF lt _ Some False this] lt show ?thesis
            by (simp add: getitem_def)
        qed
      qed
    qed
  qed
  from a obtain es where es: "linkedWorkItems it = Some (Some es)" and
      sc: "scan es it = (Inr x, x2)"
    by (cases "linkedWorkItems it"; cases "the (linkedWorkItems it)")
       (auto simp: next_item_def handle_next_def split: prod.splits sum.splits if_splits)
  from adv[OF sc] es
  show "(x2, it) \<in> measure (\<lambda>it. case linkedWorkItems it of
                                  Some (Some es) \<Rightarrow> length es - index it
                                | _ \<Rightarrow> 0)"
    by auto
qed

declare to_list.simps [simp del]

section \<open>Vocabulary of the properties\<close>

text \<open>
  The shadow value of a field is the public attribute of that name; its snapshot
  value is the field of \<^verbatim>\<open>_original_polarion\<close>. The fields of an entity are the names
  that the loops of \<^verbatim>\<open>save\<close> and \<^verbatim>\<open>_buildWorkitemFromPolarion\<close> visit: the keys of the
  raw record.
\<close>

definition shadow_value :: "workitem \<Rightarrow> string \<Rightarrow> pyval option" where
  "shadow_value w k = map_of (attrs w) k"

definition snapshot_value :: "workitem \<Rightarrow> string \<Rightarrow> pyval option" where
  "snapshot_value w k = (case original_polarion w of None \<Rightarrow> None | Some orig \<Rightarrow> map_of orig k)"

definition item_keys :: "workitem \<Rightarrow> string list" where
  "item_keys w = (case polarion_item w of None \<Rightarrow> [] | Some it \<Rightarrow> keys it)"

definition field_differs :: "workitem \<Rightarrow> string \<Rightarrow> bool" where
  "field_differs w k = (shadow_value w k \<noteq> snapshot_value w k)"

definition diff_empty :: "workitem \<Rightarrow> bool" where
  "diff_empty w = list_all (\<lambda>k. \<not> field_differs w k) (item_keys w)"

text \<open>
  A field has changed when its shadow value differs from its snapshot value by value
  equality, that is by Python's \<^verbatim>\<open>!=\<close>: this is the diff that \<^verbatim>\<open>save\<close> computes. A field
  that has only one of the two values counts as changed.
\<close>

definition field_changed :: "workitem \<Rightarrow> string \<Rightarrow> bool" where
  "field_changed w k =
     (case shadow_value w k of
        None \<Rightarrow> snapshot_value w k \<noteq> None
      | Some a \<Rightarrow> (case snapshot_value w k of None \<Rightarrow> True | Some b \<Rightarrow> \<not> py_eq a b))"

definition no_changes :: "workitem \<Rightarrow> bool" where
  "no_changes w = list_all (\<lambda>k. \<not> field_changed w k) (item_keys w)"

text \<open>
  A loaded entity: the raw record and its copy are there, every field of the record
  has a shadow value and a snapshot value, and the entity has its \<^verbatim>\<open>uri\<close>.
\<close>

definition loaded :: "workitem \<Rightarrow> bool" where
  "loaded w =
     (polarion_item w \<noteq> None \<and> original_polarion w \<noteq> None \<and>
      list_all (\<lambda>k. shadow_value w k \<noteq> None \<and> snapshot_value w k \<noteq> None) (item_keys w) \<and>
      shadow_value w ''uri'' \<noteq> None)"

text \<open>The payloads of the remote update calls in a list of calls, in order.\<close>

fun update_payloads :: "remote_call list \<Rightarrow> pydict list" where
  "update_payloads [] = []"
| "update_payloads (GetWorkItemByUri u # cs) = update_payloads cs"
| "update_payloads (UpdateWorkItem p # cs) = p # update_payloads cs"
| "update_payloads (GetAvailableEnumOptionIdsForId u f # cs) = update_payloads cs"

text \<open>
  What a payload must hold according to the design: the identifying \<^verbatim>\<open>uri\<close> of the
  entity, and for every other name the shadow value if the name is a field that has
  changed, and nothing otherwise.
\<close>

definition payload_of :: "workitem \<Rightarrow> pydict \<Rightarrow> bool" where
  "payload_of w p =
     (\<forall>k. map_of p k =
        (if k = ''uri'' then shadow_value w ''uri''
         else if k \<in> set (item_keys w) \<and> field_changed w k then shadow_value w k
         else None))"

text \<open>
  What a field mutation inside a scope may do to the run: the flag, the raw record and
  the snapshot stay, no update call is issued, and no attribute is lost.
\<close>

definition shadow_step :: "'s world \<Rightarrow> 's world \<Rightarrow> bool" where
  "shadow_step W W' =
     (postpone_save (item W') = postpone_save (item W) \<and>
      polarion_item (item W') = polarion_item (item W) \<and>
      original_polarion (item W') = original_polarion (item W) \<and>
      update_payloads (calls W') = update_payloads (calls W) \<and>
      (\<forall>k. map_of (attrs (item W)) k \<noteq> None \<longrightarrow> map_of (attrs (item W')) k \<noteq> None))"

text \<open>
  The role filter in the words of the specification: the plain tokens are the
  allow-list, the tokens that start with \<open>~\<close> are the deny-list (without the mark),
  and an edge is yielded iff (the deny-list is empty or its role is not in it) and (the
  allow-list is empty or its role is in it).
\<close>

fun tokens :: "roles_arg \<Rightarrow> string list" where
  "tokens NoRoles = []"
| "tokens (OneRole r) = [r]"
| "tokens (Roles rs) = rs"

definition is_negated :: "string \<Rightarrow> bool" where
  "is_negated t = (case t of [] \<Rightarrow> False | c # _ \<Rightarrow> c = CHR ''~'')"

definition spec_allow_list :: "roles_arg \<Rightarrow> string list" where
  "spec_allow_list roles = filter (\<lambda>t. \<not> is_negated t) (tokens roles)"

definition spec_deny_list :: "roles_arg \<Rightarrow> string list" where
  "spec_deny_list roles = map tl (filter is_negated (tokens roles))"

definition spec_yields :: "roles_arg \<Rightarrow> string \<Rightarrow> bool" where
  "spec_yields roles r =
     ((spec_deny_list roles = [] \<or> r \<notin> set (spec_deny_list roles)) \<and>
      (spec_allow_list roles = [] \<or> r \<in> set (spec_allow_list roles)))"

definition has_target :: "raw_edge \<Rightarrow> bool" where
  "has_target obj = (workItemURI obj \<noteq> None)"

definition edge_of :: "raw_edge \<Rightarrow> LinkedWorkitem" where
  "edge_of obj = LinkedWorkitem (role_of obj) (the (workItemURI obj))"

text \<open>
  What consuming an iterator over the edges \<open>xs\<close> is expected to give: the edges up to
  the first one without a target, those of them whose role passes the test, in order.
\<close>

definition yielded :: "WorkItemIterator \<Rightarrow> raw_edge list \<Rightarrow> LinkedWorkitem list" where
  "yielded it xs =
     map edge_of (filter (\<lambda>obj. role_passes it (role_of obj)) (takeWhile has_target xs))"

section \<open>A small server and a record, for concrete runs\<close>

text \<open>
  A server that stores one record and applies a partial update field by field, and
  one that rejects every update.
\<close>

definition apply_update :: "pydict \<Rightarrow> raw_item \<Rightarrow> raw_item" where
  "apply_update p s = fold (\<lambda>kv. AList.update (fst kv) (snd kv)) p s"

definition status_options :: "pyval list" where
  "status_options = [EnumOptionIdType (PStr ''draft''), EnumOptionIdType (PStr ''open'')]"

definition store_tracker :: "raw_item tracker" where
  "store_tracker =
     \<lparr>getWorkItemByUri = (\<lambda>s u. (Inr (Some s), s)),
      updateWorkItem = (\<lambda>s p. (Inr (), apply_update p s)),
      getAvailableEnumOptionIdsForId = (\<lambda>s u f. (Inr status_options, s))\<rparr>"

definition rejecting_tracker :: "raw_item tracker" where
  "rejecting_tracker =
     \<lparr>getWorkItemByUri = (\<lambda>s u. (Inr (Some s), s)),
      updateWorkItem = (\<lambda>s p. (Inl (Fault ''conflict''), s)),
      getAvailableEnumOptionIdsForId = (\<lambda>s u f. (Inr status_options, s))\<rparr>"

definition example_item :: raw_item where
  "example_item =
     [(''uri'', PStr ''wi/1''), (''id'', PStr ''WI-1''), (''unresolvable'', PBool False),
      (''title'', PStr ''old''), (''description'', PNone),
      (''status'', EnumOptionIdType (PStr ''draft'')), (''resolution'', PNone)]"

definition example_world :: "raw_item world" where
  "example_world = snd (init store_tracker (ByItem example_item) example_item)"

definition edited_world :: "raw_item world" where
  "edited_world = setattr_self ''title'' (PStr ''new'') example_world"

text \<open>
  The same two entities after \<^verbatim>\<open>unresolvable\<close> was rebound to \<^verbatim>\<open>0\<close>, which Python
  holds equal to the snapshot's \<^verbatim>\<open>False\<close>.
\<close>

definition recoded_world :: "raw_item world" where
  "recoded_world = setattr_self ''unresolvable'' (PInt 0) example_world"

definition recoded_edited_world :: "raw_item world" where
  "recoded_edited_world = setattr_self ''unresolvable'' (PInt 0) edited_world"

text \<open>A scope body that rebinds the title and then raises.\<close>

definition failing_body :: "raw_item world \<Rightarrow> (exn + unit) \<times> raw_item world" where
  "failing_body W = (Inl (Fault ''boom''), setattr_self ''title'' (PStr ''new'') W)"

definition example_edges :: "raw_edge list" where
  "example_edges =
     [\<lparr>role_id = Some ''verifies'', workItemURI = Some ''A''\<rparr>,
      \<lparr>role_id = None, workItemURI = Some ''B''\<rparr>,
      \<lparr>role_id = Some ''parent'', workItemURI = Some ''C''\<rparr>]"

definition broken_edges :: "raw_edge list" where
  "broken_edges =
     [\<lparr>role_id = Some ''verifies'', workItemURI = Some ''A''\<rparr>,
      \<lparr>role_id = Some ''verifies'', workItemURI = None\<rparr>,
      \<lparr>role_id = Some ''parent'', workItemURI = Some ''C''\<rparr>]"

section \<open>Facts about the diff, the build and the reload\<close>

lemma py_eq_refl: "py_eq a a"
proof (induction a)
  case (PObj c f)
  have "\<And>k x. map_of f k = Some x \<Longrightarrow> py_eq x x"
  proof -
    fix k x assume "map_of f k = Some x"
    then have "(k, x) \<in> set f" by (rule map_of_SomeD)
    then show "py_eq x x" using PObj.IH[of "(k, x)" x] by simp
  qed
  moreover have "\<And>k. k \<in> set (map fst f) \<Longrightarrow> map_of f k \<noteq> None"
    by (simp add: map_of_eq_None_iff)
  ultimately show ?case
    by (auto simp: list_all_iff split: option.splits)
qed simp_all

lemma equal_not_changed: "\<not> field_differs w k \<Longrightarrow> \<not> field_changed w k"
  by (simp add: field_differs_def field_changed_def py_eq_refl split: option.splits)

lemma diff_empty_no_changes: "diff_empty w \<Longrightarrow> no_changes w"
  by (simp add: diff_empty_def no_changes_def list_all_iff equal_not_changed)

lemma getattr_Inr: "getattr d k = Inr v \<longleftrightarrow> map_of d k = Some v"
  by (simp add: getattr_def split: option.splits)

lemma getattr_Inl: "getattr d k = Inl e \<longleftrightarrow> map_of d k = None \<and> e = AttributeError"
  by (auto simp add: getattr_def split: option.splits)

lemma changed_fields_map:
  "changed_fields w ks upd = Inr p \<Longrightarrow>
   map_of p k = (if k \<in> set ks \<and> field_changed w k then shadow_value w k else map_of upd k)"
proof (induction ks arbitrary: upd)
  case Nil
  then show ?case by simp
next
  case (Cons k0 ks)
  from Cons.prems obtain cur orig prev where
    cur: "map_of (attrs w) k0 = Some cur" and orig: "original_polarion w = Some orig" and
    prev: "map_of orig k0 = Some prev" and
    rest: "changed_fields w ks (if \<not> py_eq cur prev then AList.update k0 cur upd else upd) = Inr p"
    by (auto simp: getattr_Inr split: sum.splits option.splits)
  have d0: "field_changed w k0 \<longleftrightarrow> \<not> py_eq cur prev"
    using cur orig prev by (simp add: field_changed_def shadow_value_def snapshot_value_def)
  have s0: "shadow_value w k0 = Some cur"
    using cur by (simp add: shadow_value_def)
  show ?case
    using Cons.IH[OF rest, of] d0 s0
    by (cases "k = k0") (auto simp: update_conv')
qed

lemma changed_fields_defined:
  "changed_fields w ks upd = Inr p \<Longrightarrow> k \<in> set ks \<Longrightarrow>
   shadow_value w k \<noteq> None \<and> snapshot_value w k \<noteq> None"
proof (induction ks arbitrary: upd)
  case Nil
  then show ?case by simp
next
  case (Cons k0 ks)
  from Cons.prems(1) obtain cur orig prev where
    cur: "map_of (attrs w) k0 = Some cur" and orig: "original_polarion w = Some orig" and
    prev: "map_of orig k0 = Some prev" and
    rest: "changed_fields w ks (if \<not> py_eq cur prev then AList.update k0 cur upd else upd) = Inr p"
    by (auto simp: getattr_Inr split: sum.splits option.splits)
  show ?case
  proof (cases "k = k0")
    case True
    with cur orig prev show ?thesis
      by (simp add: shadow_value_def snapshot_value_def)
  next
    case False
    with Cons.prems(2) have "k \<in> set ks" by simp
    from Cons.IH[OF rest this] show ?thesis .
  qed
qed

lemma changed_fields_total:
  "\<forall>k\<in>set ks. shadow_value w k \<noteq> None \<and> snapshot_value w k \<noteq> None \<Longrightarrow>
   \<exists>p. changed_fields w ks upd = Inr p"
proof (induction ks arbitrary: upd)
  case Nil
  then show ?case by simp
next
  case (Cons k0 ks)
  from Cons.prems obtain cur orig prev where
    cur: "map_of (attrs w) k0 = Some cur" and orig: "original_polarion w = Some orig" and
    prev: "map_of orig k0 = Some prev"
    by (auto simp: shadow_value_def snapshot_value_def split: option.splits)
  from Cons.prems have "\<forall>k\<in>set ks. shadow_value w k \<noteq> None \<and> snapshot_value w k \<noteq> None"
    by simp
  from Cons.IH[OF this] cur orig prev show ?case
    by (simp add: getattr_def)
qed

lemma changed_fields_empty:
  assumes "changed_fields w ks [] = Inr p"
  shows "p = [] \<longleftrightarrow> (\<forall>k\<in>set ks. \<not> field_changed w k)"
proof
  assume "p = []"
  show "\<forall>k\<in>set ks. \<not> field_changed w k"
  proof
    fix k assume k: "k \<in> set ks"
    show "\<not> field_changed w k"
    proof
      assume d: "field_changed w k"
      from changed_fields_map[OF assms, of k] k d \<open>p = []\<close>
      have "shadow_value w k = None" by simp
      moreover have "shadow_value w k \<noteq> None"
        using changed_fields_defined[OF assms k] by simp
      ultimately show False by simp
    qed
  qed
next
  assume n: "\<forall>k\<in>set ks. \<not> field_changed w k"
  have h: "map_of p k = None" for k
    using changed_fields_map[OF assms, of k] n by auto
  show "p = []"
  proof (cases p)
    case Nil
    then show ?thesis .
  next
    case (Cons x xs)
    with h[of "fst x"] show ?thesis by (cases x) simp
  qed
qed

lemma project_fields_map:
  "map_of (project_fields it ks a) k =
     (if k \<in> set ks \<and> map_of it k \<noteq> None then map_of it k else map_of a k)"
proof (induction ks arbitrary: a)
  case Nil
  then show ?case by simp
next
  case (Cons k0 ks)
  show ?case
    by (cases "map_of it k0") (auto simp: Cons.IH update_conv')
qed

lemma map_of_keys: "k \<in> set (keys d) \<Longrightarrow> map_of d k \<noteq> None"
  by (simp add: keys_def map_of_eq_None_iff)

lemma build_flag:
  "buildWorkitemFromPolarion w = (r, w') \<Longrightarrow> postpone_save w' = postpone_save w"
  by (auto simp: buildWorkitemFromPolarion_def Let_def split: option.splits sum.splits if_splits)

lemma build_error:
  "buildWorkitemFromPolarion w = (Inl e, w') \<Longrightarrow> w' = w"
  by (auto simp: buildWorkitemFromPolarion_def Let_def split: option.splits sum.splits if_splits)

lemma build_ok:
  assumes "buildWorkitemFromPolarion w = (Inr (), w')" and "\<not> postpone_save w"
  shows "polarion_item w' = polarion_item w \<and> original_polarion w' = polarion_item w \<and>
         polarion_item w \<noteq> None \<and> diff_empty w' \<and> no_changes w' \<and>
         (\<forall>k\<in>set (item_keys w'). shadow_value w' k \<noteq> None \<and> snapshot_value w' k \<noteq> None)"
proof -
  from assms obtain it where it: "polarion_item w = Some it" and
    w': "w' = w\<lparr>original_polarion := Some it, attrs := project_fields it (keys it) (attrs w)\<rparr>"
    by (auto simp: buildWorkitemFromPolarion_def Let_def split: option.splits sum.splits if_splits)
  have eq: "shadow_value w' k = snapshot_value w' k \<and> shadow_value w' k \<noteq> None \<and>
            snapshot_value w' k \<noteq> None"
    if "k \<in> set (keys it)" for k
    using that map_of_keys[OF that]
    by (simp add: w' shadow_value_def snapshot_value_def project_fields_map)
  have de: "diff_empty w'"
    using it eq by (auto simp: w' diff_empty_def list_all_iff field_differs_def item_keys_def)
  show ?thesis
    using it eq de diff_empty_no_changes[OF de]
    by (auto simp: w' item_keys_def)
qed

lemma build_postponed:
  assumes "buildWorkitemFromPolarion w = (Inr (), w')" and "postpone_save w"
  shows "w' = w\<lparr>original_polarion := polarion_item w\<rparr>"
  using assms
  by (auto simp: buildWorkitemFromPolarion_def Let_def split: option.splits sum.splits if_splits)

lemma reload_facts:
  assumes "reloadFromPolarion svc W = (r, W')"
  shows "postpone_save (item W') = postpone_save (item W) \<and>
         update_payloads (calls W') = update_payloads (calls W) \<and>
         (\<exists>cs. calls W' = calls W @ cs \<and> update_payloads cs = [])"
proof (cases "polarion_item (item W)")
  case None
  with assms show ?thesis by (simp add: reloadFromPolarion_def)
next
  case (Some it)
  show ?thesis
  proof (cases "getattr it ''uri''")
    case (Inl e)
    with Some assms show ?thesis by (simp add: reloadFromPolarion_def)
  next
    case (Inr u)
    obtain r0 s' where g: "getWorkItemByUri svc (server W) u = (r0, s')"
      by (cases "getWorkItemByUri svc (server W) u")
    have up: "update_payloads (cs @ [GetWorkItemByUri u]) = update_payloads cs" for cs
      by (induction cs rule: update_payloads.induct) simp_all
    show ?thesis
    proof (cases r0)
      case (Inl e)
      with Some Inr g assms show ?thesis
        by (auto simp: reloadFromPolarion_def Let_def up)
    next
      case r0: (Inr it')
      obtain r1 w1 where b: "buildWorkitemFromPolarion
          ((item W)\<lparr>polarion_item := it'\<rparr>) = (r1, w1)"
        by (cases "buildWorkitemFromPolarion ((item W)\<lparr>polarion_item := it'\<rparr>)")
      from build_flag[OF b] Some Inr g r0 b assms show ?thesis
        by (auto simp: reloadFromPolarion_def Let_def up)
    qed
  qed
qed

lemma reload_ok:
  assumes "reloadFromPolarion svc W = (Inr (), W')" and "\<not> postpone_save (item W)"
  shows "diff_empty (item W') \<and> no_changes (item W') \<and> original_polarion (item W') = polarion_item (item W') \<and>
         polarion_item (item W') \<noteq> None"
proof -
  from assms(1) obtain it u s' it' w1 where
    "polarion_item (item W) = Some it" "getattr it ''uri'' = Inr u"
    "getWorkItemByUri svc (server W) u = (Inr it', s')" and
    b: "buildWorkitemFromPolarion ((item W)\<lparr>polarion_item := it'\<rparr>) = (Inr (), w1)" and
    W': "item W' = w1"
    by (auto simp: reloadFromPolarion_def Let_def split: option.splits sum.splits prod.splits)
  from build_ok[OF b] assms(2) W' show ?thesis by simp
qed


section \<open>Facts about save\<close>

lemma save_postponed: "postpone_save (item W) \<Longrightarrow> save svc W = (Inr (), W)"
  by (simp add: save_def)

lemma no_changes_iff: "no_changes w \<longleftrightarrow> (\<forall>k\<in>set (item_keys w). \<not> field_changed w k)"
  by (simp add: no_changes_def list_all_iff)

lemma payload_of_changed:
  assumes "polarion_item w = Some it" and "changed_fields w (keys it) [] = Inr upd"
    and "getattr (attrs w) ''uri'' = Inr u"
  shows "payload_of w (AList.update ''uri'' u upd)"
  unfolding payload_of_def
proof
  fix k
  from assms(3) have u: "shadow_value w ''uri'' = Some u"
    by (simp add: getattr_Inr shadow_value_def)
  show "map_of (AList.update ''uri'' u upd) k =
        (if k = ''uri'' then shadow_value w ''uri''
         else if k \<in> set (item_keys w) \<and> field_changed w k then shadow_value w k else None)"
    using changed_fields_map[OF assms(2), of k] u assms(1)
    by (simp add: update_conv' item_keys_def)
qed

text \<open>What one call of save does when the flag is not set.\<close>

lemma save_cases:
  assumes "\<not> postpone_save (item W)" and "save svc W = (r, W')"
  shows "(W' = W \<and> (r = Inr () \<longrightarrow> no_changes (item W)) \<and>
          (loaded (item W) \<longrightarrow> r = Inr ())) \<or>
         (\<exists>p ru s'. \<not> no_changes (item W) \<and> payload_of (item W) p \<and>
            updateWorkItem svc (server W) p = (ru, s') \<and>
            (case ru of
               Inl e \<Rightarrow> r = Inl e \<and> W' = W\<lparr>server := s', calls := calls W @ [UpdateWorkItem p]\<rparr>
             | Inr _ \<Rightarrow> reloadFromPolarion svc
                          (W\<lparr>server := s', calls := calls W @ [UpdateWorkItem p]\<rparr>) = (r, W')))"
proof (cases "polarion_item (item W)")
  case None
  with assms show ?thesis
    by (auto simp add: save_def no_changes_def item_keys_def loaded_def)
next
  case (Some it)
  show ?thesis
  proof (cases "changed_fields (item W) (keys it) []")
    case (Inl e)
    have "\<not> loaded (item W)"
    proof
      assume "loaded (item W)"
      with Some have "\<forall>k\<in>set (keys it). shadow_value (item W) k \<noteq> None \<and>
          snapshot_value (item W) k \<noteq> None"
        by (simp add: loaded_def list_all_iff item_keys_def)
      from changed_fields_total[OF this, of "[]"] Inl show False by simp
    qed
    with Inl Some assms show ?thesis
      by (auto simp add: save_def)
  next
    case (Inr upd)
    note em = changed_fields_empty[OF Inr]
    show ?thesis
    proof (cases "upd = []")
      case True
      with em Some have "no_changes (item W)"
        by (simp add: no_changes_iff item_keys_def)
      with True Some Inr assms show ?thesis
        by (simp add: save_def)
    next
      case False
      with em Some have nd: "\<not> no_changes (item W)"
        by (simp add: no_changes_iff item_keys_def)
      show ?thesis
      proof (cases "getattr (attrs (item W)) ''uri''")
        case (Inl e)
        then have "\<not> loaded (item W)"
          by (simp add: loaded_def shadow_value_def getattr_Inl)
        with Inl False Some Inr assms nd show ?thesis
          by (auto simp add: save_def)
      next
        case u: (Inr u)
        let ?p = "AList.update ''uri'' u upd"
        obtain ru s' where up: "updateWorkItem svc (server W) ?p = (ru, s')"
          by (cases "updateWorkItem svc (server W) ?p")
        have po: "payload_of (item W) ?p"
          by (rule payload_of_changed[OF Some Inr u])
        have "case ru of
               Inl e \<Rightarrow> r = Inl e \<and> W' = W\<lparr>server := s', calls := calls W @ [UpdateWorkItem ?p]\<rparr>
             | Inr _ \<Rightarrow> reloadFromPolarion svc
                          (W\<lparr>server := s', calls := calls W @ [UpdateWorkItem ?p]\<rparr>) = (r, W')"
          using False Some Inr u up assms
          by (cases ru) (auto simp: save_def Let_def)
        with nd po up show ?thesis by blast
      qed
    qed
  qed
qed


lemma save_flag:
  assumes "save svc W = (r, W')"
  shows "postpone_save (item W') = postpone_save (item W)"
proof (cases "postpone_save (item W)")
  case True
  with assms show ?thesis by (simp add: save_postponed)
next
  case False
  from save_cases[OF False assms] show ?thesis
  proof (elim disjE exE conjE)
    fix p ru s'
    assume c: "case ru of
               Inl e \<Rightarrow> r = Inl e \<and> W' = W\<lparr>server := s', calls := calls W @ [UpdateWorkItem p]\<rparr>
             | Inr _ \<Rightarrow> reloadFromPolarion svc
                          (W\<lparr>server := s', calls := calls W @ [UpdateWorkItem p]\<rparr>) = (r, W')"
    show ?thesis
    proof (cases ru)
      case (Inl e)
      with c show ?thesis by simp
    next
      case (Inr u)
      with c reload_facts[of svc "W\<lparr>server := s', calls := calls W @ [UpdateWorkItem p]\<rparr>" r W']
      show ?thesis by simp
    qed
  qed simp
qed

lemma update_payloads_append:
  "update_payloads (xs @ ys) = update_payloads xs @ update_payloads ys"
  by (induction xs rule: update_payloads.induct) simp_all

text \<open>The calls that one call of save adds.\<close>

lemma save_calls:
  assumes "save svc W = (r, W')"
  shows "calls W' = calls W \<and> (\<not> postpone_save (item W) \<and> loaded (item W) \<longrightarrow> no_changes (item W)) \<or>
         (\<exists>p cs. calls W' = calls W @ UpdateWorkItem p # cs \<and> update_payloads cs = [] \<and>
            payload_of (item W) p \<and> \<not> no_changes (item W) \<and> \<not> postpone_save (item W))"
proof (cases "postpone_save (item W)")
  case True
  with assms show ?thesis by (simp add: save_postponed)
next
  case False
  from save_cases[OF False assms] show ?thesis
  proof (elim disjE exE conjE)
    fix p ru s'
    assume nd: "\<not> no_changes (item W)" and po: "payload_of (item W) p"
      and c: "case ru of
               Inl e \<Rightarrow> r = Inl e \<and> W' = W\<lparr>server := s', calls := calls W @ [UpdateWorkItem p]\<rparr>
             | Inr _ \<Rightarrow> reloadFromPolarion svc
                          (W\<lparr>server := s', calls := calls W @ [UpdateWorkItem p]\<rparr>) = (r, W')"
    have "\<exists>cs. calls W' = calls W @ UpdateWorkItem p # cs \<and> update_payloads cs = []"
    proof (cases ru)
      case (Inl e)
      with c show ?thesis by simp
    next
      case (Inr u)
      with c reload_facts[of svc "W\<lparr>server := s', calls := calls W @ [UpdateWorkItem p]\<rparr>" r W']
      show ?thesis by auto
    qed
    with nd po False show ?thesis by blast
  qed auto
qed



lemma save_elim [consumes 2, case_names unchanged rejected updated]:
  assumes "\<not> postpone_save (item W)" and "save svc W = (r, W')"
  obtains
    (unchanged) "W' = W" and "r = Inr () \<longrightarrow> no_changes (item W)"
      and "loaded (item W) \<longrightarrow> r = Inr ()"
  | (rejected) p e s' where "\<not> no_changes (item W)" and "payload_of (item W) p"
      and "updateWorkItem svc (server W) p = (Inl e, s')" and "r = Inl e"
      and "W' = W\<lparr>server := s', calls := calls W @ [UpdateWorkItem p]\<rparr>"
  | (updated) p s' where "\<not> no_changes (item W)" and "payload_of (item W) p"
      and "updateWorkItem svc (server W) p = (Inr (), s')"
      and "reloadFromPolarion svc
             (W\<lparr>server := s', calls := calls W @ [UpdateWorkItem p]\<rparr>) = (r, W')"
proof -
  from save_cases[OF assms]
  consider "W' = W \<and> (r = Inr () \<longrightarrow> no_changes (item W)) \<and> (loaded (item W) \<longrightarrow> r = Inr ())"
    | p ru s' where "\<not> no_changes (item W)" "payload_of (item W) p"
        "updateWorkItem svc (server W) p = (ru, s')"
        "case ru of
           Inl e \<Rightarrow> r = Inl e \<and> W' = W\<lparr>server := s', calls := calls W @ [UpdateWorkItem p]\<rparr>
         | Inr _ \<Rightarrow> reloadFromPolarion svc
                      (W\<lparr>server := s', calls := calls W @ [UpdateWorkItem p]\<rparr>) = (r, W')"
    by (elim disjE exE conjE) blast+
  then show thesis
  proof cases
    case 1
    then show ?thesis using unchanged by simp
  next
    case (2 p ru s')
    show ?thesis
    proof (cases ru)
      case (Inl e)
      with 2 show ?thesis using rejected[of p e s'] by simp
    next
      case (Inr u)
      with 2 show ?thesis using updated[of p s'] by simp
    qed
  qed
qed

section \<open>Facts about construction and the deferred-save scope\<close>

lemma read_id_and_build_ok:
  assumes "read_id_and_build W = (Inr (), W')" and "\<not> postpone_save (item W)"
  shows "diff_empty (item W') \<and> original_polarion (item W') = polarion_item (item W') \<and>
         polarion_item (item W') \<noteq> None"
proof -
  from assms(1) obtain w1 where
    b: "buildWorkitemFromPolarion (item W) = (Inr (), w1)" and W': "item W' = w1"
    by (auto simp: read_id_and_build_def split: option.splits sum.splits prod.splits)
  from build_ok[OF b assms(2)] W' show ?thesis by simp
qed

lemma init_ok:
  assumes "init svc a s = (Inr (), W)"
  shows "diff_empty (item W) \<and> original_polarion (item W) = polarion_item (item W) \<and>
         polarion_item (item W) \<noteq> None"
proof (cases a)
  case (ByUri u)
  with assms obtain W0 where r: "read_id_and_build W0 = (Inr (), W)"
    and f: "\<not> postpone_save (item W0)"
    by (auto simp: Let_def init_state_def set_item_def split: if_splits prod.splits sum.splits)
  from read_id_and_build_ok[OF r f] show ?thesis .
next
  case (ByItem it)
  with assms have r: "read_id_and_build
      (set_item (\<lambda>w. w\<lparr>polarion_item := Some it\<rparr>) (init_state s)) = (Inr (), W)"
    by simp
  have f: "\<not> postpone_save (item (set_item (\<lambda>w. w\<lparr>polarion_item := Some it\<rparr>) (init_state s)))"
    by (simp add: set_item_def init_state_def)
  from read_id_and_build_ok[OF r f] show ?thesis .
qed

lemma reload_postponed:
  assumes "reloadFromPolarion svc W = (Inr (), W')" and "postpone_save (item W)"
  shows "attrs (item W') = attrs (item W) \<and>
         original_polarion (item W') = polarion_item (item W')"
proof -
  from assms(1) obtain it u s' it' w1 where
    "polarion_item (item W) = Some it" "getattr it ''uri'' = Inr u"
    "getWorkItemByUri svc (server W) u = (Inr it', s')" and
    b: "buildWorkitemFromPolarion ((item W)\<lparr>polarion_item := it'\<rparr>) = (Inr (), w1)" and
    W': "item W' = w1"
    by (auto simp: reloadFromPolarion_def Let_def split: option.splits sum.splits prod.splits)
  from build_postponed[OF b] assms(2) W' show ?thesis by simp
qed

lemma flag_values:
  "shadow_value (w\<lparr>postpone_save := b\<rparr>) = shadow_value w"
  "snapshot_value (w\<lparr>postpone_save := b\<rparr>) = snapshot_value w"
  "item_keys (w\<lparr>postpone_save := b\<rparr>) = item_keys w"
  by (simp_all add: fun_eq_iff shadow_value_def snapshot_value_def item_keys_def)

lemma flag_fields:
  "field_differs (w\<lparr>postpone_save := b\<rparr>) = field_differs w"
  "field_changed (w\<lparr>postpone_save := b\<rparr>) = field_changed w"
  by (simp_all add: fun_eq_iff field_differs_def field_changed_def flag_values
        cong: option.case_cong)

lemma flag_irrelevant:
  "loaded (w\<lparr>postpone_save := b\<rparr>) = loaded w"
  "diff_empty (w\<lparr>postpone_save := b\<rparr>) = diff_empty w"
  "no_changes (w\<lparr>postpone_save := b\<rparr>) = no_changes w"
  "payload_of (w\<lparr>postpone_save := b\<rparr>) p = payload_of w p"
  by (simp_all add: loaded_def diff_empty_def no_changes_def payload_of_def flag_values
        flag_fields)

lemma set_flag_simps:
  "item (set_item (\<lambda>w. w\<lparr>postpone_save := b\<rparr>) W) = (item W)\<lparr>postpone_save := b\<rparr>"
  "calls (set_item f W) = calls W"
  "server (set_item f W) = server W"
  by (simp_all add: set_item_def)

lemma with_scope_unfold:
  "with_scope svc body W =
     (case fst (save svc (set_item (\<lambda>w. w\<lparr>postpone_save := False\<rparr>) (snd (body (enter W))))) of
        Inl e \<Rightarrow> Inl e
      | Inr _ \<Rightarrow> fst (body (enter W)),
      snd (save svc (set_item (\<lambda>w. w\<lparr>postpone_save := False\<rparr>) (snd (body (enter W))))))"
  by (cases "body (enter W)";
      cases "save svc (set_item (\<lambda>w. w\<lparr>postpone_save := False\<rparr>) (snd (body (enter W))))")
     (simp add: with_scope_def exit_scope_def split: sum.splits)

lemma shadow_step_refl: "shadow_step W W"
  by (simp add: shadow_step_def)

lemma shadow_step_trans: "shadow_step A B \<Longrightarrow> shadow_step B C \<Longrightarrow> shadow_step A C"
  by (simp add: shadow_step_def)

lemma shadow_step_setattr: "shadow_step W (setattr_self k v W)"
  by (simp add: shadow_step_def setattr_self_def set_item_def update_conv')

lemma save_postponed_step:
  assumes "postpone_save (item W)" and "save svc W = (r, W')"
  shows "shadow_step W W'"
  using assms by (simp add: save_postponed shadow_step_refl)

lemma setattr_save_step:
  assumes "postpone_save (item W)" and "save svc (setattr_self k v W) = (r, W')"
  shows "shadow_step W W'"
proof -
  have "postpone_save (item (setattr_self k v W))"
    using assms(1) by (simp add: setattr_self_def set_item_def)
  from save_postponed_step[OF this assms(2)] shadow_step_setattr[of W k v]
  show ?thesis by (rule shadow_step_trans[rotated])
qed

lemma getAvailableStatus_step:
  assumes "getAvailableStatus svc W = (r, W')"
  shows "shadow_step W W' \<and> item W' = item W"
proof (cases "getattr (attrs (item W)) ''uri''")
  case (Inl e)
  with assms show ?thesis by (simp add: getAvailableStatus_def shadow_step_refl)
next
  case (Inr u)
  obtain r0 s' where g: "getAvailableEnumOptionIdsForId svc (server W) u ''status'' = (r0, s')"
    by (cases "getAvailableEnumOptionIdsForId svc (server W) u ''status''")
  from assms Inr g
  have "W' = W\<lparr>server := s', calls := calls W @ [GetAvailableEnumOptionIdsForId u ''status'']\<rparr>"
    by (cases r0) (simp_all add: getAvailableStatus_def Let_def)
  then show ?thesis
    by (simp add: shadow_step_def update_payloads_append)
qed

lemma setStatus_step:
  assumes "postpone_save (item W)" and "setStatus svc st W = (r, W')"
  shows "shadow_step W W'"
proof -
  obtain r1 W1 where g: "getAvailableStatus svc W = (r1, W1)"
    by (cases "getAvailableStatus svc W")
  note g1 = getAvailableStatus_step[OF g]
  then have p1: "postpone_save (item W1)" using assms(1) by simp
  show ?thesis
  proof (cases r1)
    case (Inl e)
    with g assms(2) g1 show ?thesis by (simp add: setStatus_def)
  next
    case (Inr av)
    show ?thesis
    proof (cases "list_ex (py_eq st) av")
      case False
      with Inr g assms(2) g1 show ?thesis by (simp add: setStatus_def)
    next
      case True
      show ?thesis
      proof (cases "getattr (attrs (item W1)) ''status''")
        case (Inl e)
        with True Inr g assms(2) g1 show ?thesis by (simp add: setStatus_def)
      next
        case cur: (Inr cur)
        show ?thesis
        proof (cases "obj_setattr cur ''id'' st")
          case (Inl e)
          with cur True Inr g assms(2) g1 show ?thesis by (simp add: setStatus_def)
        next
          case new: (Inr cur')
          with cur True Inr g assms(2)
          have "save svc (setattr_self ''status'' cur' W1) = (r, W')"
            by (simp add: setStatus_def)
          from setattr_save_step[OF p1 this] g1 show ?thesis
            by (blast intro: shadow_step_trans)
        qed
      qed
    qed
  qed
qed

lemma setResolution_step:
  assumes "postpone_save (item W)" and "setResolution svc res W = (r, W')"
  shows "shadow_step W W'"
proof (cases "getattr (attrs (item W)) ''resolution''")
  case (Inl e)
  with assms(2) show ?thesis by (simp add: setResolution_def shadow_step_refl)
next
  case cur: (Inr cur)
  show ?thesis
  proof (cases "cur = PNone")
    case True
    with cur assms(2)
    have "save svc (setattr_self ''resolution'' (EnumOptionIdType res) W) = (r, W')"
      by (simp add: setResolution_def)
    from setattr_save_step[OF assms(1) this] show ?thesis .
  next
    case False
    show ?thesis
    proof (cases "obj_setattr cur ''id'' res")
      case (Inl e)
      with False cur assms(2) show ?thesis by (simp add: setResolution_def shadow_step_refl)
    next
      case (Inr cur')
      with False cur assms(2)
      have "save svc (setattr_self ''resolution'' cur' W) = (r, W')"
        by (simp add: setResolution_def)
      from setattr_save_step[OF assms(1) this] show ?thesis .
    qed
  qed
qed

lemma apply_mutation_step:
  assumes "postpone_save (item W)" and "apply_mutation svc m W = (r, W')"
  shows "shadow_step W W'"
proof (cases m)
  case (SetAttr k v)
  with assms(2) show ?thesis by (auto simp: shadow_step_setattr)
next
  case (SetDescription d)
  with assms(2) have "save svc (setattr_self ''description'' (TextType d) W) = (r, W')"
    by (simp add: setDescription_def)
  from setattr_save_step[OF assms(1) this] show ?thesis .
next
  case (SetStatus st)
  with assms(2) have "setStatus svc st W = (r, W')" by simp
  from setStatus_step[OF assms(1) this] show ?thesis .
next
  case (SetResolution res)
  with assms(2) have "setResolution svc res W = (r, W')" by simp
  from setResolution_step[OF assms(1) this] show ?thesis .
qed

lemma run_mutations_step:
  assumes "postpone_save (item W)" and "run_mutations svc ms W = (r, W')"
  shows "shadow_step W W'"
  using assms
proof (induction ms arbitrary: W)
  case Nil
  then show ?case by (simp add: shadow_step_refl)
next
  case (Cons m ms)
  obtain r1 W1 where a: "apply_mutation svc m W = (r1, W1)"
    by (cases "apply_mutation svc m W")
  note s1 = apply_mutation_step[OF Cons.prems(1) a]
  show ?case
  proof (cases r1)
    case (Inl e)
    with a Cons.prems(2) s1 show ?thesis by simp
  next
    case (Inr u)
    with a Cons.prems(2) have r: "run_mutations svc ms W1 = (r, W')" by simp
    from s1 Cons.prems(1) have "postpone_save (item W1)" by (simp add: shadow_step_def)
    from Cons.IH[OF this r] s1 show ?thesis by (blast intro: shadow_step_trans)
  qed
qed

lemma loaded_step:
  assumes "loaded (item W)" and "shadow_step W W'"
  shows "loaded (item W')"
  using assms
  by (auto simp: loaded_def shadow_step_def list_all_iff shadow_value_def snapshot_value_def
      item_keys_def)

section \<open>Facts about the iterator\<close>

lemma add_roles_cursor:
  "linkedWorkItems (add_roles rs it) = linkedWorkItems it \<and> index (add_roles rs it) = index it"
proof (induction rs arbitrary: it)
  case Nil
  then show ?case by simp
next
  case (Cons r rs)
  then show ?case by (cases r) simp_all
qed

lemma is_negated_simps:
  "is_negated [] = False"
  "is_negated (c # rest) = (c = CHR ''~'')"
  by (simp_all add: is_negated_def)

lemma add_roles_disallowed:
  "disallowed_roles (add_roles rs it) =
     (if filter is_negated rs = [] then disallowed_roles it
      else Some ((case disallowed_roles it of None \<Rightarrow> [] | Some d \<Rightarrow> d) @
                 map tl (filter is_negated rs)))"
proof (induction rs arbitrary: it)
  case Nil
  then show ?case by simp
next
  case (Cons r rs)
  note IH = Cons.IH
  show ?case
  proof (cases r)
    case Nil
    then show ?thesis by (simp add: IH is_negated_simps)
  next
    case (Cons c rest)
    then show ?thesis
      by (cases "disallowed_roles it") (simp_all add: IH is_negated_simps append_role_def)
  qed
qed

lemma add_roles_allowed:
  "allowed_roles (add_roles rs it) =
     (if filter (\<lambda>t. \<not> is_negated t) rs = [] then allowed_roles it
      else Some ((case allowed_roles it of None \<Rightarrow> [] | Some a \<Rightarrow> a) @
                 filter (\<lambda>t. \<not> is_negated t) rs))"
proof (induction rs arbitrary: it)
  case Nil
  then show ?case by simp
next
  case (Cons r rs)
  note IH = Cons.IH
  show ?case
  proof (cases r)
    case Nil
    then show ?thesis
      by (cases "allowed_roles it") (simp_all add: IH is_negated_simps append_role_def)
  next
    case (Cons c rest)
    then show ?thesis
      by (cases "allowed_roles it") (simp_all add: IH is_negated_simps append_role_def)
  qed
qed

lemma new_iterator_fields:
  "linkedWorkItems (new_iterator c roles) = c"
  "index (new_iterator c roles) = 0"
  "disallowed_roles (new_iterator c roles) =
     (if spec_deny_list roles = [] then None else Some (spec_deny_list roles))"
  "allowed_roles (new_iterator c roles) =
     (if spec_allow_list roles = [] then None else Some (spec_allow_list roles))"
proof -
  let ?it0 = "\<lparr>linkedWorkItems = c, index = 0,
                disallowed_roles = None, allowed_roles = None\<rparr>"
  have n: "new_iterator c roles = add_roles (tokens roles) ?it0"
    by (cases roles) (simp_all add: new_iterator_def del: add_roles.simps(2))
  show "linkedWorkItems (new_iterator c roles) = c"
    unfolding n by (simp only: add_roles_cursor) simp
  show "index (new_iterator c roles) = 0"
    unfolding n by (simp only: add_roles_cursor) simp
  show "disallowed_roles (new_iterator c roles) =
     (if spec_deny_list roles = [] then None else Some (spec_deny_list roles))"
    unfolding n spec_deny_list_def by (simp only: add_roles_disallowed) simp
  show "allowed_roles (new_iterator c roles) =
     (if spec_allow_list roles = [] then None else Some (spec_allow_list roles))"
    unfolding n spec_allow_list_def by (simp only: add_roles_allowed) simp
qed

lemma new_iterator_passes:
  "role_passes (new_iterator c roles) r = spec_yields roles r"
  by (simp add: role_passes_def spec_yields_def new_iterator_fields)

lemma role_passes_index: "role_passes (it\<lparr>index := i\<rparr>) r = role_passes it r"
  by (simp add: role_passes_def)

lemma yielded_index: "yielded (it\<lparr>index := i\<rparr>) xs = yielded it xs"
  by (simp add: yielded_def role_passes_index)

lemma scan_step:
  assumes "index it < length es"
  shows "scan es it =
     (case workItemURI (es ! index it) of
        None \<Rightarrow> (Inl AttributeError, it\<lparr>index := index it + 1\<rparr>)
      | Some u \<Rightarrow>
          if role_passes it (role_of (es ! index it))
          then (Inr (LinkedWorkitem (role_of (es ! index it)) u), it\<lparr>index := index it + 1\<rparr>)
          else scan es (it\<lparr>index := index it + 1\<rparr>))"
  using assms by (simp add: scan.simps[of es it] getitem_def)

lemma scan_end: "\<not> index it < length es \<Longrightarrow> scan es it = (Inl StopIteration, it)"
  by (simp add: scan.simps[of es it])

lemma yielded_drop:
  assumes "i < length es"
  shows "yielded it (drop i es) =
     (case workItemURI (es ! i) of
        None \<Rightarrow> []
      | Some u \<Rightarrow>
          if role_passes it (role_of (es ! i))
          then LinkedWorkitem (role_of (es ! i)) u # yielded it (drop (Suc i) es)
          else yielded it (drop (Suc i) es))"
proof -
  from assms have "drop i es = es ! i # drop (Suc i) es"
    by (simp add: Cons_nth_drop_Suc)
  then show ?thesis
    by (cases "workItemURI (es ! i)") (simp_all add: yielded_def has_target_def edge_of_def)
qed

lemma scan_result:
  "scan es it = (r, it') \<Longrightarrow>
     it' = it\<lparr>index := index it'\<rparr> \<and>
     (\<forall>x. r = Inr x \<longrightarrow>
        yielded it (drop (index it) es) = x # yielded it (drop (index it') es)) \<and>
     (\<forall>e. r = Inl e \<longrightarrow>
        (e = StopIteration \<or> e = AttributeError) \<and> yielded it (drop (index it) es) = [])"
proof (induction es it rule: scan.induct)
  case (1 es it)
  show ?case
  proof (cases "index it < length es")
    case False
    with "1.prems" show ?thesis
      by (auto simp: scan_end yielded_def)
  next
    case lt: True
    show ?thesis
    proof (cases "workItemURI (es ! index it)")
      case None
      with lt "1.prems" show ?thesis
        by (auto simp: scan_step yielded_drop)
    next
      case (Some u)
      show ?thesis
      proof (cases "role_passes it (role_of (es ! index it))")
        case True
        with lt Some "1.prems" show ?thesis
          by (auto simp: scan_step yielded_drop)
      next
        case False
        with lt Some "1.prems" have s: "scan es (it\<lparr>index := index it + 1\<rparr>) = (r, it')"
          by (simp add: scan_step)
        have g: "getitem es (index it) = Inr (es ! index it)"
          using lt by (simp add: getitem_def)
        from "1.IH"[OF lt g Some False s] lt Some False show ?thesis
          by (simp add: yielded_drop yielded_index)
      qed
    qed
  qed
qed

lemma next_item_fault_free:
  "fst (next_item it) = Inl StopIteration \<or> (\<exists>x. fst (next_item it) = Inr x)"
proof (cases "linkedWorkItems it")
  case None
  then show ?thesis by (simp add: next_item_def)
next
  case (Some c)
  show ?thesis
  proof (cases c)
    case None
    with Some show ?thesis by (simp add: next_item_def handle_next_def)
  next
    case es: (Some es)
    obtain r it' where s: "scan es it = (r, it')" by (cases "scan es it")
    show ?thesis
    proof (cases r)
      case (Inl e)
      with scan_result[OF s] have "e = StopIteration \<or> e = AttributeError" by simp
      with Some es s Inl show ?thesis by (auto simp: next_item_def handle_next_def)
    next
      case (Inr x)
      with Some es s show ?thesis by (simp add: next_item_def handle_next_def)
    qed
  qed
qed

lemma to_list_absent:
  "linkedWorkItems it = None \<or> linkedWorkItems it = Some None \<Longrightarrow> to_list it = Inr []"
  by (auto simp: to_list.simps[of it] next_item_def handle_next_def)

lemma to_list_yielded:
  "linkedWorkItems it = Some (Some es) \<Longrightarrow> to_list it = Inr (yielded it (drop (index it) es))"
proof (induction it rule: to_list.induct)
  case (1 it)
  obtain r it' where s: "scan es it = (r, it')" by (cases "scan es it")
  note sr = scan_result[OF s]
  show ?case
  proof (cases r)
    case (Inl e)
    with sr have e: "e = StopIteration \<or> e = AttributeError"
      and y: "yielded it (drop (index it) es) = []" by simp_all
    from e Inl s "1.prems" have "next_item it = (Inl StopIteration, it')"
      by (auto simp: next_item_def handle_next_def)
    with y show ?thesis by (simp add: to_list.simps[of it])
  next
    case (Inr x)
    with sr have i: "it' = it\<lparr>index := index it'\<rparr>"
      and y: "yielded it (drop (index it) es) = x # yielded it (drop (index it') es)"
      by simp_all
    from Inr s "1.prems" have n: "next_item it = (Inr x, it')"
      by (simp add: next_item_def handle_next_def)
    from i "1.prems" have l: "linkedWorkItems it' = Some (Some es)"
      by (metis WorkItemIterator.select_convs(1) WorkItemIterator.surjective
          WorkItemIterator.update_convs(2))
    have yy: "yielded it' xs = yielded it xs" for xs
      using yielded_index[where it = it and i = "index it'" and xs = xs] i by simp
    from "1.IH"[OF n[symmetric] refl l] have "to_list it' = Inr (yielded it' (drop (index it') es))" .
    with n y yy show ?thesis by (simp add: to_list.simps[of it])
  qed
qed

section \<open>Change tracking: the claims about save\<close>

text \<open>
  Claim C1, as amended. Whatever \<^verbatim>\<open>save\<close> returns, it issues at most one remote update
  call. The payload of that call holds the entity's \<^verbatim>\<open>uri\<close> (always, changed or not)
  and, besides it, exactly the fields of the record whose shadow value differs from
  the snapshot value by value equality (Python's \<^verbatim>\<open>!=\<close>), each with its shadow value.
  When no field differs, \<^verbatim>\<open>save\<close> issues no remote call at all.
\<close>

theorem save_sends_changed_fields_and_uri:
  assumes "save svc W = (r, W')"
  shows "\<exists>cs. calls W' = calls W @ cs \<and> length (update_payloads cs) \<le> 1 \<and>
           (\<forall>p\<in>set (update_payloads cs). payload_of (item W) p \<and> \<not> no_changes (item W)) \<and>
           (no_changes (item W) \<longrightarrow> cs = [])"
  using save_calls[OF assms] by auto

text \<open>
  Two runs of C1's theorem. On the example record with a new title and with
  \<^verbatim>\<open>unresolvable\<close> rebound to \<^verbatim>\<open>0\<close>, the update call carries the title and the \<^verbatim>\<open>uri\<close>
  and not \<^verbatim>\<open>unresolvable\<close>, since \<^verbatim>\<open>0 == False\<close>. With only \<^verbatim>\<open>unresolvable\<close> rebound to
  \<^verbatim>\<open>0\<close> no field differs and \<^verbatim>\<open>save\<close> issues no call.
\<close>

theorem save_sends_changed_fields_and_uri_witness:
  "calls (snd (save store_tracker recoded_edited_world)) =
     calls recoded_edited_world @
     [UpdateWorkItem [(''title'', PStr ''new''), (''uri'', PStr ''wi/1'')],
      GetWorkItemByUri (PStr ''wi/1'')] \<and>
   payload_of (item recoded_edited_world) [(''title'', PStr ''new''), (''uri'', PStr ''wi/1'')] \<and>
   \<not> no_changes (item recoded_edited_world) \<and>
   shadow_value (item recoded_world) ''unresolvable'' = Some (PInt 0) \<and>
   snapshot_value (item recoded_world) ''unresolvable'' = Some (PBool False) \<and>
   no_changes (item recoded_world) \<and>
   calls (snd (save store_tracker recoded_world)) = calls recoded_world"
proof -
  have c: "calls (snd (save store_tracker recoded_edited_world)) =
     calls recoded_edited_world @
     [UpdateWorkItem [(''title'', PStr ''new''), (''uri'', PStr ''wi/1'')],
      GetWorkItemByUri (PStr ''wi/1'')]"
    by code_simp
  have "save store_tracker recoded_edited_world =
      (fst (save store_tracker recoded_edited_world), snd (save store_tracker recoded_edited_world))"
    by simp
  from save_sends_changed_fields_and_uri[OF this] obtain cs where
    cs: "calls (snd (save store_tracker recoded_edited_world)) = calls recoded_edited_world @ cs" and
    p: "\<forall>p\<in>set (update_payloads cs).
          payload_of (item recoded_edited_world) p \<and> \<not> no_changes (item recoded_edited_world)"
    by blast
  from c cs have "cs = [UpdateWorkItem [(''title'', PStr ''new''), (''uri'', PStr ''wi/1'')],
      GetWorkItemByUri (PStr ''wi/1'')]"
    by simp
  with p have a: "payload_of (item recoded_edited_world)
      [(''title'', PStr ''new''), (''uri'', PStr ''wi/1'')]"
    "\<not> no_changes (item recoded_edited_world)" by simp_all
  have v: "shadow_value (item recoded_world) ''unresolvable'' = Some (PInt 0)"
    "snapshot_value (item recoded_world) ''unresolvable'' = Some (PBool False)"
    "no_changes (item recoded_world)"
    by code_simp+
  have "save store_tracker recoded_world =
      (fst (save store_tracker recoded_world), snd (save store_tracker recoded_world))"
    by simp
  from save_sends_changed_fields_and_uri[OF this] v(3)
  have b: "calls (snd (save store_tracker recoded_world)) = calls recoded_world" by auto
  from c a v b show ?thesis by simp
qed

text \<open>
  C1 as stated fails: the update call for the edited example record includes the
  field \<^verbatim>\<open>uri\<close>, whose shadow value equals its snapshot value.
\<close>

theorem save_includes_unchanged_uri:
  "calls (snd (save store_tracker edited_world)) =
     [UpdateWorkItem [(''title'', PStr ''new''), (''uri'', PStr ''wi/1'')],
      GetWorkItemByUri (PStr ''wi/1'')] \<and>
   ''uri'' \<in> set (item_keys (item edited_world)) \<and>
   shadow_value (item edited_world) ''uri'' = snapshot_value (item edited_world) ''uri''"
  by code_simp

text \<open>
  Claim C5. If the remote update call that \<^verbatim>\<open>save\<close> issues raises, \<^verbatim>\<open>save\<close> raises the
  same exception, issues no further call (no reload), and leaves the object as it
  was: the shadow values, the raw record and the snapshot are unchanged, the diff is
  still non-empty (structurally and by value equality) and the flag is not set.
\<close>

theorem failed_update_keeps_edits:
  assumes "save svc W = (r, W')"
    and "calls W' = calls W @ UpdateWorkItem p # cs"
    and "updateWorkItem svc (server W) p = (Inl e, s')"
  shows "r = Inl e \<and> cs = [] \<and> item W' = item W \<and> \<not> diff_empty (item W') \<and>
         \<not> postpone_save (item W') \<and> \<not> no_changes (item W')"
proof -
  have np: "\<not> postpone_save (item W)"
  proof
    assume "postpone_save (item W)"
    with assms(1) have "W' = W" by (simp add: save_postponed)
    with assms(2) show False by simp
  qed
  from np assms(1) show ?thesis
  proof (cases rule: save_elim)
    case unchanged
    with assms(2) show ?thesis by simp
  next
    case (rejected p' e' s'')
    with assms(2) have "p' = p" "cs = []" by simp_all
    with rejected assms(3) np diff_empty_no_changes[of "item W"] show ?thesis by auto
  next
    case (updated p' s'')
    from reload_facts[OF updated(4)] assms(2) have "p' = p" by auto
    with updated(3) assms(3) show ?thesis by simp
  qed
qed

text \<open>A run of C5's theorem against the server that rejects every update.\<close>

theorem failed_update_keeps_edits_witness:
  "calls (snd (save rejecting_tracker edited_world)) =
     calls edited_world @ UpdateWorkItem [(''title'', PStr ''new''), (''uri'', PStr ''wi/1'')] # [] \<and>
   updateWorkItem rejecting_tracker (server edited_world)
     [(''title'', PStr ''new''), (''uri'', PStr ''wi/1'')] = (Inl (Fault ''conflict''), example_item) \<and>
   fst (save rejecting_tracker edited_world) = Inl (Fault ''conflict'') \<and>
   item (snd (save rejecting_tracker edited_world)) = item edited_world \<and>
   \<not> diff_empty (item (snd (save rejecting_tracker edited_world)))"
proof -
  have h1: "save rejecting_tracker edited_world =
      (fst (save rejecting_tracker edited_world), snd (save rejecting_tracker edited_world))"
    by simp
  have h2: "calls (snd (save rejecting_tracker edited_world)) =
     calls edited_world @ UpdateWorkItem [(''title'', PStr ''new''), (''uri'', PStr ''wi/1'')] # []"
    by code_simp
  have h3: "updateWorkItem rejecting_tracker (server edited_world)
     [(''title'', PStr ''new''), (''uri'', PStr ''wi/1'')] = (Inl (Fault ''conflict''), example_item)"
    by code_simp
  from failed_update_keeps_edits[OF h1 h2 h3] h2 h3 show ?thesis by blast
qed

text \<open>
  Claim C6. For an entity with at least one changed field (a field whose shadow value
  differs from its snapshot value by value equality), after a \<^verbatim>\<open>save\<close> that returns
  without an exception (the flag not being set, so that the update call and the
  reload are made), the diff is empty: no field has changed, the shadow value of every
  field is the snapshot value, and the snapshot is the reloaded raw record. The update
  call was issued.
\<close>

theorem save_reconverges:
  assumes "\<not> postpone_save (item W)" and "\<not> no_changes (item W)"
    and "save svc W = (Inr (), W')"
  shows "no_changes (item W') \<and> diff_empty (item W') \<and>
         original_polarion (item W') = polarion_item (item W') \<and>
         polarion_item (item W') \<noteq> None \<and>
         (\<exists>p cs. calls W' = calls W @ UpdateWorkItem p # cs \<and> update_payloads cs = [])"
  using assms(1,3)
proof (cases rule: save_elim)
  case unchanged
  with assms(2) show ?thesis by simp
next
  case (rejected p e s')
  then show ?thesis by simp
next
  case (updated p s')
  from reload_ok[OF updated(4)] reload_facts[OF updated(4)] assms(1) show ?thesis by auto
qed

text \<open>A run of C6's theorem on the example record with a new title and \<^verbatim>\<open>unresolvable\<close>
  rebound to \<^verbatim>\<open>0\<close>.\<close>

theorem save_reconverges_witness:
  "\<not> postpone_save (item recoded_edited_world) \<and> \<not> no_changes (item recoded_edited_world) \<and>
   fst (save store_tracker recoded_edited_world) = Inr () \<and>
   no_changes (item (snd (save store_tracker recoded_edited_world))) \<and>
   diff_empty (item (snd (save store_tracker recoded_edited_world)))"
proof -
  have h1: "\<not> postpone_save (item recoded_edited_world)" by code_simp
  have h2: "\<not> no_changes (item recoded_edited_world)" by code_simp
  have h3: "fst (save store_tracker recoded_edited_world) = Inr ()" by code_simp
  then have h4: "save store_tracker recoded_edited_world =
      (Inr (), snd (save store_tracker recoded_edited_world))"
    by (cases "save store_tracker recoded_edited_world") simp
  from save_reconverges[OF h1 h2 h4] h1 h2 h3 show ?thesis by simp
qed

section \<open>Change tracking: the claims about loading and the deferred-save scope\<close>

text \<open>
  Claim C3, as amended. Immediately after a construction that returns, and
  immediately after every reload of the raw record that returns while the
  deferred-save flag is not set, the shadow value of every field equals its snapshot
  value, and the snapshot is the raw record. A reload that returns while the flag is
  set replaces the snapshot by the new raw record and leaves the shadow values as
  they were.
\<close>

theorem shadow_equals_snapshot_after_load:
  "(init svc a s = (Inr (), W) \<longrightarrow>
      diff_empty (item W) \<and> original_polarion (item W) = polarion_item (item W)) \<and>
   (\<not> postpone_save (item W0) \<and> reloadFromPolarion svc W0 = (Inr (), W1) \<longrightarrow>
      diff_empty (item W1) \<and> original_polarion (item W1) = polarion_item (item W1)) \<and>
   (postpone_save (item W0) \<and> reloadFromPolarion svc W0 = (Inr (), W1) \<longrightarrow>
      attrs (item W1) = attrs (item W0) \<and>
      original_polarion (item W1) = polarion_item (item W1))"
  using init_ok[of svc a s W] reload_ok[of svc W0 W1] reload_postponed[of svc W0 W1]
  by blast

text \<open>
  A run of C3's theorem: construction from the example record, a reload of the edited
  entity outside a scope, and a reload of it inside a scope.
\<close>

theorem shadow_equals_snapshot_after_load_witness:
  "fst (init store_tracker (ByItem example_item) example_item) = Inr () \<and>
   diff_empty (item example_world) \<and>
   \<not> postpone_save (item edited_world) \<and>
   fst (reloadFromPolarion store_tracker edited_world) = Inr () \<and>
   diff_empty (item (snd (reloadFromPolarion store_tracker edited_world))) \<and>
   postpone_save (item (enter edited_world)) \<and>
   fst (reloadFromPolarion store_tracker (enter edited_world)) = Inr () \<and>
   attrs (item (snd (reloadFromPolarion store_tracker (enter edited_world))))
     = attrs (item (enter edited_world))"
proof -
  have i: "init store_tracker (ByItem example_item) example_item = (Inr (), example_world)"
    unfolding example_world_def
    by (cases "init store_tracker (ByItem example_item) example_item") code_simp
  have f1: "\<not> postpone_save (item edited_world)" by code_simp
  have r1: "fst (reloadFromPolarion store_tracker edited_world) = Inr ()" by code_simp
  then have r1': "reloadFromPolarion store_tracker edited_world =
      (Inr (), snd (reloadFromPolarion store_tracker edited_world))"
    by (cases "reloadFromPolarion store_tracker edited_world") simp
  have f2: "postpone_save (item (enter edited_world))" by code_simp
  have r2: "fst (reloadFromPolarion store_tracker (enter edited_world)) = Inr ()" by code_simp
  then have r2': "reloadFromPolarion store_tracker (enter edited_world) =
      (Inr (), snd (reloadFromPolarion store_tracker (enter edited_world)))"
    by (cases "reloadFromPolarion store_tracker (enter edited_world)") simp
  from shadow_equals_snapshot_after_load[of store_tracker "ByItem example_item" example_item
      example_world edited_world "snd (reloadFromPolarion store_tracker edited_world)"]
    i f1 r1'
  have a: "diff_empty (item example_world)"
    "diff_empty (item (snd (reloadFromPolarion store_tracker edited_world)))"
    by blast+
  from shadow_equals_snapshot_after_load[of store_tracker "ByItem example_item" example_item
      example_world "enter edited_world"
      "snd (reloadFromPolarion store_tracker (enter edited_world))"]
    f2 r2'
  have b: "attrs (item (snd (reloadFromPolarion store_tracker (enter edited_world))))
     = attrs (item (enter edited_world))"
    by blast
  from i a b f1 r1 f2 r2 show ?thesis by simp
qed

text \<open>
  C3 as stated fails for a reload while the flag is set: the reload returns, the
  snapshot holds the server's title and the shadow still holds the caller's.
\<close>

theorem reload_while_postponed_keeps_stale_shadow:
  "postpone_save (item (setattr_self ''title'' (PStr ''new'') (enter example_world))) \<and>
   fst (reloadFromPolarion store_tracker
          (setattr_self ''title'' (PStr ''new'') (enter example_world))) = Inr () \<and>
   shadow_value (item (snd (reloadFromPolarion store_tracker
          (setattr_self ''title'' (PStr ''new'') (enter example_world))))) ''title''
     = Some (PStr ''new'') \<and>
   snapshot_value (item (snd (reloadFromPolarion store_tracker
          (setattr_self ''title'' (PStr ''new'') (enter example_world))))) ''title''
     = Some (PStr ''old'')"
  by code_simp

text \<open>
  Claim C2, as amended. For a loaded entity and every sequence of field mutations
  (attribute rebinding, \<^verbatim>\<open>setDescription\<close>, \<^verbatim>\<open>setStatus\<close>, \<^verbatim>\<open>setResolution\<close>) performed
  between scope entry and scope exit, entering, mutating and exiting issues exactly
  one remote update call if some field's final value differs from the snapshot by
  value equality, and no update call otherwise. The payload of that call holds the
  \<^verbatim>\<open>uri\<close> and all the fields whose final value differs from the snapshot, and no other
  field. The snapshot is the one taken before the scope (the first conjunct: the
  mutations do not replace it), and the final values are those the mutations left,
  also when one of them raised.
\<close>

theorem deferred_scope_flushes_at_most_once:
  assumes "loaded (item W)"
  shows "original_polarion (item (snd (run_mutations svc ms (enter W)))) =
           original_polarion (item W) \<and>
         (if no_changes (item (snd (run_mutations svc ms (enter W))))
          then update_payloads (calls (snd (with_scope svc (run_mutations svc ms) W))) =
                 update_payloads (calls W)
          else \<exists>p. update_payloads (calls (snd (with_scope svc (run_mutations svc ms) W))) =
                      update_payloads (calls W) @ [p] \<and>
                   payload_of (item (snd (run_mutations svc ms (enter W)))) p)"
proof -
  let ?W2 = "snd (run_mutations svc ms (enter W))"
  let ?Wc = "set_item (\<lambda>w. w\<lparr>postpone_save := False\<rparr>) ?W2"
  have pe: "postpone_save (item (enter W))"
    by (simp add: enter_def set_item_def)
  have r: "run_mutations svc ms (enter W) = (fst (run_mutations svc ms (enter W)), ?W2)"
    by simp
  note st = run_mutations_step[OF pe r]
  have le: "loaded (item (enter W))"
    using assms by (simp add: enter_def set_item_def flag_irrelevant)
  have l2: "loaded (item ?W2)" by (rule loaded_step[OF le st])
  have o2: "original_polarion (item ?W2) = original_polarion (item W)"
    and u2: "update_payloads (calls ?W2) = update_payloads (calls W)"
    using st by (simp_all add: shadow_step_def enter_def set_item_def)
  have lc: "loaded (item ?Wc)" and npc: "\<not> postpone_save (item ?Wc)"
    using l2 by (simp_all add: set_flag_simps flag_irrelevant)
  have ws: "snd (with_scope svc (run_mutations svc ms) W) = snd (save svc ?Wc)"
    by (simp add: with_scope_unfold)
  have s: "save svc ?Wc = (fst (save svc ?Wc), snd (save svc ?Wc))" by simp
  from save_calls[OF s] lc npc u2
  have "if no_changes (item ?W2)
        then update_payloads (calls (snd (save svc ?Wc))) = update_payloads (calls W)
        else \<exists>p. update_payloads (calls (snd (save svc ?Wc))) = update_payloads (calls W) @ [p] \<and>
                 payload_of (item ?W2) p"
    by (auto simp: set_flag_simps flag_irrelevant update_payloads_append)
  with o2 ws show ?thesis by simp
qed

text \<open>A run of C2's theorem: five mutations in a scope, among them a setter with a remote
  read and a rebinding of \<^verbatim>\<open>unresolvable\<close> to \<^verbatim>\<open>0\<close>; one update call at the exit, with the
  three fields that differ and the \<^verbatim>\<open>uri\<close>.\<close>

theorem deferred_scope_flushes_at_most_once_witness:
  "loaded (item example_world) \<and>
   \<not> no_changes (item (snd (run_mutations store_tracker
        [SetAttr ''title'' (PStr ''t1''), SetDescription ''d'', SetStatus (PStr ''open''),
         SetAttr ''unresolvable'' (PInt 0), SetAttr ''title'' (PStr ''t2'')]
        (enter example_world)))) \<and>
   update_payloads (calls (snd (with_scope store_tracker (run_mutations store_tracker
        [SetAttr ''title'' (PStr ''t1''), SetDescription ''d'', SetStatus (PStr ''open''),
         SetAttr ''unresolvable'' (PInt 0), SetAttr ''title'' (PStr ''t2'')])
        example_world))) =
     update_payloads (calls example_world) @
     [[(''title'', PStr ''t2''), (''description'', TextType ''d''),
       (''status'', EnumOptionIdType (PStr ''open'')), (''uri'', PStr ''wi/1'')]] \<and>
   payload_of (item (snd (run_mutations store_tracker
        [SetAttr ''title'' (PStr ''t1''), SetDescription ''d'', SetStatus (PStr ''open''),
         SetAttr ''unresolvable'' (PInt 0), SetAttr ''title'' (PStr ''t2'')]
        (enter example_world))))
     [(''title'', PStr ''t2''), (''description'', TextType ''d''),
      (''status'', EnumOptionIdType (PStr ''open'')), (''uri'', PStr ''wi/1'')]"
proof -
  let ?ms = "[SetAttr ''title'' (PStr ''t1''), SetDescription ''d'', SetStatus (PStr ''open''),
         SetAttr ''unresolvable'' (PInt 0), SetAttr ''title'' (PStr ''t2'')]"
  have l: "loaded (item example_world)" by code_simp
  have n: "\<not> no_changes (item (snd (run_mutations store_tracker ?ms (enter example_world))))"
    by code_simp
  have c: "update_payloads (calls (snd (with_scope store_tracker
             (run_mutations store_tracker ?ms) example_world))) =
     update_payloads (calls example_world) @
     [[(''title'', PStr ''t2''), (''description'', TextType ''d''),
       (''status'', EnumOptionIdType (PStr ''open'')), (''uri'', PStr ''wi/1'')]]"
    by code_simp
  from deferred_scope_flushes_at_most_once[OF l, of store_tracker ?ms] n
  obtain p where p: "update_payloads (calls (snd (with_scope store_tracker
             (run_mutations store_tracker ?ms) example_world))) =
        update_payloads (calls example_world) @ [p]"
    "payload_of (item (snd (run_mutations store_tracker ?ms (enter example_world)))) p"
    by auto
  from p(1) c have "p = [(''title'', PStr ''t2''), (''description'', TextType ''d''),
       (''status'', EnumOptionIdType (PStr ''open'')), (''uri'', PStr ''wi/1'')]"
    by simp
  with p(2) l n c show ?thesis by simp
qed

text \<open>
  C2 as stated fails when the mutations leave no field different from the snapshot:
  two mutations in a scope, the second restoring the title, and the exit issues no
  update call where the claim promises exactly one.
\<close>

theorem scope_without_net_change_issues_no_update:
  "loaded (item example_world) \<and>
   calls example_world = [] \<and>
   calls (snd (with_scope store_tracker
      (run_mutations store_tracker
         [SetAttr ''title'' (PStr ''new''), SetAttr ''title'' (PStr ''old'')])
      example_world)) = []"
  by code_simp

text \<open>
  Claim C7. However the scope body ends, by returning or by raising, the exit clears
  the flag and then runs \<^verbatim>\<open>save\<close> once, on the state the body left: the state after the
  \<^verbatim>\<open>with\<close> statement is the state after that \<^verbatim>\<open>save\<close>, in it the flag is not set, and at
  most one update call was added. An exception of \<^verbatim>\<open>save\<close> is the exception of the
  statement (with the flag already cleared); if \<^verbatim>\<open>save\<close> returns, the outcome of the
  body, exception or not, is the outcome of the statement.
\<close>

theorem scope_exit_clears_flag_and_saves:
  "\<not> postpone_save (item (snd (with_scope svc body W))) \<and>
   \<not> postpone_save
       (item (set_item (\<lambda>w. w\<lparr>postpone_save := False\<rparr>) (snd (body (enter W))))) \<and>
   snd (with_scope svc body W) =
     snd (save svc (set_item (\<lambda>w. w\<lparr>postpone_save := False\<rparr>) (snd (body (enter W))))) \<and>
   fst (with_scope svc body W) =
     (case fst (save svc (set_item (\<lambda>w. w\<lparr>postpone_save := False\<rparr>) (snd (body (enter W))))) of
        Inl e \<Rightarrow> Inl e
      | Inr _ \<Rightarrow> fst (body (enter W))) \<and>
   (\<exists>cs. calls (snd (with_scope svc body W)) = calls (snd (body (enter W))) @ cs \<and>
         length (update_payloads cs) \<le> 1)"
proof -
  let ?Wc = "set_item (\<lambda>w. w\<lparr>postpone_save := False\<rparr>) (snd (body (enter W)))"
  have s: "save svc ?Wc = (fst (save svc ?Wc), snd (save svc ?Wc))" by simp
  have npc: "\<not> postpone_save (item ?Wc)" by (simp add: set_flag_simps)
  from save_flag[OF s] npc have a: "\<not> postpone_save (item (snd (save svc ?Wc)))" by simp
  from save_calls[OF s]
  have c: "\<exists>cs. calls (snd (save svc ?Wc)) = calls (snd (body (enter W))) @ cs \<and>
         length (update_payloads cs) \<le> 1"
    by (auto simp: set_flag_simps)
  from a npc c show ?thesis by (simp add: with_scope_unfold)
qed

text \<open>
  A run of C7's theorem on a body that raises after rebinding the title: the exit
  still saves, and the rejecting server's exception replaces the body's.
\<close>

theorem scope_exit_clears_flag_and_saves_witness:
  "fst (failing_body (enter example_world)) = Inl (Fault ''boom'') \<and>
   fst (with_scope store_tracker failing_body example_world) = Inl (Fault ''boom'') \<and>
   \<not> postpone_save (item (snd (with_scope store_tracker failing_body example_world))) \<and>
   update_payloads (calls (snd (with_scope store_tracker failing_body example_world))) =
     [[(''title'', PStr ''new''), (''uri'', PStr ''wi/1'')]] \<and>
   fst (with_scope rejecting_tracker failing_body example_world) = Inl (Fault ''conflict'') \<and>
   \<not> postpone_save (item (snd (with_scope rejecting_tracker failing_body example_world)))"
proof -
  have e: "fst (failing_body (enter example_world)) = Inl (Fault ''boom'')"
    "fst (with_scope store_tracker failing_body example_world) = Inl (Fault ''boom'')"
    "update_payloads (calls (snd (with_scope store_tracker failing_body example_world))) =
     [[(''title'', PStr ''new''), (''uri'', PStr ''wi/1'')]]"
    "fst (with_scope rejecting_tracker failing_body example_world) = Inl (Fault ''conflict'')"
    by code_simp+
  from scope_exit_clears_flag_and_saves[of store_tracker failing_body example_world]
    scope_exit_clears_flag_and_saves[of rejecting_tracker failing_body example_world] e
  show ?thesis by blast
qed

text \<open>
  Claim C8, as amended. Nested scopes share the one flag: entering a scope inside
  another changes nothing, and the exit of the inner scope already clears the flag
  and saves. If the entity is loaded and some field differs by value equality at
  that point, the inner exit issues the update call, while the outer scope is still
  open; the rest of the outer body runs with the flag cleared, so saves are no longer
  suppressed; and the exit of the outer scope clears the flag and saves again, on the
  state the outer body left.
\<close>

theorem inner_scope_exit_flushes:
  "enter (enter W) = enter W \<and>
   \<not> postpone_save (item (snd (with_scope svc inner (enter W)))) \<and>
   (loaded (item (snd (inner (enter W)))) \<and> \<not> no_changes (item (snd (inner (enter W)))) \<longrightarrow>
      (\<exists>p cs. calls (snd (with_scope svc inner (enter W))) =
                 calls (snd (inner (enter W))) @ UpdateWorkItem p # cs \<and>
               update_payloads cs = [] \<and> payload_of (item (snd (inner (enter W)))) p)) \<and>
   (fst (with_scope svc inner (enter W)) = Inr () \<longrightarrow>
      inner_then svc inner rest (enter W) = rest (snd (with_scope svc inner (enter W)))) \<and>
   snd (nested_scopes svc inner rest W) =
     snd (save svc (set_item (\<lambda>w. w\<lparr>postpone_save := False\<rparr>)
                      (snd (inner_then svc inner rest (enter W))))) \<and>
   \<not> postpone_save (item (snd (nested_scopes svc inner rest W)))"
proof -
  have ee: "enter (enter W) = enter W"
    by (simp add: enter_def set_item_def)
  let ?Wi = "snd (inner (enter W))"
  let ?Wc = "set_item (\<lambda>w. w\<lparr>postpone_save := False\<rparr>) ?Wi"
  have s: "save svc ?Wc = (fst (save svc ?Wc), snd (save svc ?Wc))" by simp
  have npc: "\<not> postpone_save (item ?Wc)" by (simp add: set_flag_simps)
  from save_flag[OF s] npc have a: "\<not> postpone_save (item (snd (save svc ?Wc)))" by simp
  have ws: "snd (with_scope svc inner (enter W)) = snd (save svc ?Wc)"
    by (simp add: with_scope_unfold ee)
  have c: "\<exists>p cs. calls (snd (save svc ?Wc)) = calls ?Wi @ UpdateWorkItem p # cs \<and>
               update_payloads cs = [] \<and> payload_of (item ?Wi) p"
    if "loaded (item ?Wi)" "\<not> no_changes (item ?Wi)"
    using save_calls[OF s] that npc
    by (auto simp: set_flag_simps flag_irrelevant)
  have d: "inner_then svc inner rest (enter W) = rest (snd (with_scope svc inner (enter W)))"
    if "fst (with_scope svc inner (enter W)) = Inr ()"
    using that by (cases "with_scope svc inner (enter W)") (simp add: inner_then_def)
  let ?Wo = "set_item (\<lambda>w. w\<lparr>postpone_save := False\<rparr>)
               (snd (inner_then svc inner rest (enter W)))"
  have so: "save svc ?Wo = (fst (save svc ?Wo), snd (save svc ?Wo))" by simp
  have npo: "\<not> postpone_save (item ?Wo)" by (simp add: set_flag_simps)
  from save_flag[OF so] npo have ao: "\<not> postpone_save (item (snd (save svc ?Wo)))" by simp
  have wo: "snd (nested_scopes svc inner rest W) = snd (save svc ?Wo)"
    by (simp add: nested_scopes_def with_scope_unfold)
  from ee a ws c d ao wo show ?thesis by simp
qed

text \<open>A run of C8's theorem: an inner scope that rebinds the title, followed in the outer
  scope by \<^verbatim>\<open>setDescription\<close>, whose save is not suppressed.\<close>

theorem inner_scope_exit_flushes_witness:
  "loaded (item (snd (run_mutations store_tracker [SetAttr ''title'' (PStr ''new'')]
      (enter example_world)))) \<and>
   \<not> no_changes (item (snd (run_mutations store_tracker [SetAttr ''title'' (PStr ''new'')]
      (enter example_world)))) \<and>
   \<not> postpone_save (item (snd (with_scope store_tracker
      (run_mutations store_tracker [SetAttr ''title'' (PStr ''new'')]) (enter example_world)))) \<and>
   calls (snd (with_scope store_tracker
              (run_mutations store_tracker [SetAttr ''title'' (PStr ''new'')])
              (enter example_world))) =
     calls (snd (run_mutations store_tracker [SetAttr ''title'' (PStr ''new'')]
              (enter example_world))) @
     UpdateWorkItem [(''title'', PStr ''new''), (''uri'', PStr ''wi/1'')] #
     [GetWorkItemByUri (PStr ''wi/1'')] \<and>
   payload_of (item (snd (run_mutations store_tracker [SetAttr ''title'' (PStr ''new'')]
      (enter example_world)))) [(''title'', PStr ''new''), (''uri'', PStr ''wi/1'')] \<and>
   fst (with_scope store_tracker
          (run_mutations store_tracker [SetAttr ''title'' (PStr ''new'')])
          (enter example_world)) = Inr () \<and>
   update_payloads (calls (snd (nested_scopes store_tracker
      (run_mutations store_tracker [SetAttr ''title'' (PStr ''new'')])
      (setDescription store_tracker ''d'') example_world))) =
     [[(''title'', PStr ''new''), (''uri'', PStr ''wi/1'')],
      [(''description'', TextType ''d''), (''uri'', PStr ''wi/1'')]] \<and>
   \<not> postpone_save (item (snd (nested_scopes store_tracker
      (run_mutations store_tracker [SetAttr ''title'' (PStr ''new'')])
      (setDescription store_tracker ''d'') example_world)))"
proof -
  let ?inner = "run_mutations store_tracker [SetAttr ''title'' (PStr ''new'')]"
  have l: "loaded (item (snd (?inner (enter example_world))))" by code_simp
  have n: "\<not> no_changes (item (snd (?inner (enter example_world))))" by code_simp
  have c: "calls (snd (with_scope store_tracker ?inner (enter example_world))) =
     calls (snd (?inner (enter example_world))) @
     UpdateWorkItem [(''title'', PStr ''new''), (''uri'', PStr ''wi/1'')] #
     [GetWorkItemByUri (PStr ''wi/1'')]"
    by code_simp
  have f: "fst (with_scope store_tracker ?inner (enter example_world)) = Inr ()" by code_simp
  have u: "update_payloads (calls (snd (nested_scopes store_tracker ?inner
      (setDescription store_tracker ''d'') example_world))) =
     [[(''title'', PStr ''new''), (''uri'', PStr ''wi/1'')],
      [(''description'', TextType ''d''), (''uri'', PStr ''wi/1'')]]"
    by code_simp
  note t = inner_scope_exit_flushes[of example_world store_tracker ?inner
      "setDescription store_tracker ''d''"]
  from t l n obtain p cs where
    pc: "calls (snd (with_scope store_tracker ?inner (enter example_world))) =
           calls (snd (?inner (enter example_world))) @ UpdateWorkItem p # cs"
      "payload_of (item (snd (?inner (enter example_world)))) p"
    by blast
  from pc(1) c have "p = [(''title'', PStr ''new''), (''uri'', PStr ''wi/1'')]" by simp
  with pc(2) have po: "payload_of (item (snd (?inner (enter example_world))))
      [(''title'', PStr ''new''), (''uri'', PStr ''wi/1'')]" by simp
  from t have fl: "\<not> postpone_save (item (snd (with_scope store_tracker ?inner
      (enter example_world))))"
    "\<not> postpone_save (item (snd (nested_scopes store_tracker ?inner
      (setDescription store_tracker ''d'') example_world)))"
    by blast+
  from l n c f u po fl show ?thesis by simp
qed

text \<open>
  C8 as stated fails: with the outer scope entered and not yet left, the exit of an
  inner scope issues the update call and clears the flag, and a setter called
  afterwards, still inside the outer scope, issues a second update call.
\<close>

theorem inner_scope_exit_ends_suppression:
  "postpone_save (item (enter example_world)) \<and>
   calls (snd (with_scope store_tracker
      (run_mutations store_tracker [SetAttr ''title'' (PStr ''new'')])
      (enter example_world))) =
     [UpdateWorkItem [(''title'', PStr ''new''), (''uri'', PStr ''wi/1'')],
      GetWorkItemByUri (PStr ''wi/1'')] \<and>
   \<not> postpone_save (item (snd (with_scope store_tracker
      (run_mutations store_tracker [SetAttr ''title'' (PStr ''new'')])
      (enter example_world)))) \<and>
   update_payloads (calls (snd (setDescription store_tracker ''d''
      (snd (with_scope store_tracker
         (run_mutations store_tracker [SetAttr ''title'' (PStr ''new'')])
         (enter example_world)))))) =
     [[(''title'', PStr ''new''), (''uri'', PStr ''wi/1'')],
      [(''description'', TextType ''d''), (''uri'', PStr ''wi/1'')]]"
  by code_simp

section \<open>The iterator: the claims\<close>

text \<open>
  Claim C4. For every sequence of raw edges (each with a target, as a raw edge has)
  and every role filter, consuming the iterator gives exactly the edges for which (the
  deny-list is empty or the role is not in it) and (the allow-list is empty or the
  role is in it), in the order of the raw sequence, each as often as it occurs there.
  The allow-list is the plain tokens of the filter, the deny-list the tokens that
  start with \<open>~\<close>, without that mark.
\<close>

theorem iterator_yields_filtered_in_order:
  assumes "\<forall>obj\<in>set es. has_target obj"
  shows "to_list (new_iterator (Some (Some es)) roles) =
           Inr (map edge_of (filter (\<lambda>obj. spec_yields roles (role_of obj)) es))"
proof -
  from assms have tw: "takeWhile has_target es = es"
    by (simp add: takeWhile_eq_all_conv)
  show ?thesis
    using to_list_yielded[of "new_iterator (Some (Some es)) roles" es]
    by (simp add: new_iterator_fields yielded_def new_iterator_passes tw)
qed

text \<open>A run of C4's theorem on the example edges, with an allowed and a denied role.\<close>

theorem iterator_yields_filtered_in_order_witness:
  "list_all has_target example_edges \<and>
   to_list (new_iterator (Some (Some example_edges)) (Roles [''verifies'', ''~parent''])) =
     Inr [LinkedWorkitem ''verifies'' ''A'']"
proof -
  have a: "list_all has_target example_edges" by code_simp
  then have h: "\<forall>obj\<in>set example_edges. has_target obj" by (simp add: list_all_iff)
  have e: "map edge_of (filter (\<lambda>obj. spec_yields (Roles [''verifies'', ''~parent'']) (role_of obj))
             example_edges) = [LinkedWorkitem ''verifies'' ''A'']"
    by code_simp
  from iterator_yields_filtered_in_order[OF h, of "Roles [''verifies'', ''~parent'']"] e a
  show ?thesis by simp
qed

text \<open>
  Claim C9. A raw edge without the role sub-structure (and with a target) gets the
  role \<^verbatim>\<open>'NA'\<close>. With the cursor on it, \<^verbatim>\<open>__next__\<close> returns it with that role if the
  filter lets \<^verbatim>\<open>'NA'\<close> pass, and otherwise skips it and goes on with the next edge. The
  filter lets \<^verbatim>\<open>'NA'\<close> pass iff it does not deny \<^verbatim>\<open>'NA'\<close> and its allow-list is empty or
  holds \<^verbatim>\<open>'NA'\<close>; so only when the filter is empty, or names \<^verbatim>\<open>'NA'\<close> in its allow-list,
  or is a deny-list that does not deny it.
\<close>

theorem edge_without_role_gets_sentinel:
  assumes "i < length es" and "role_id (es ! i) = None" and "workItemURI (es ! i) = Some u"
  shows "role_of (es ! i) = ''NA'' \<and>
         next_item ((new_iterator (Some (Some es)) roles)\<lparr>index := i\<rparr>) =
           (if spec_yields roles ''NA''
            then (Inr (LinkedWorkitem ''NA'' u),
                  (new_iterator (Some (Some es)) roles)\<lparr>index := i + 1\<rparr>)
            else next_item ((new_iterator (Some (Some es)) roles)\<lparr>index := i + 1\<rparr>)) \<and>
         (spec_yields roles ''NA'' \<longleftrightarrow>
            ''NA'' \<notin> set (spec_deny_list roles) \<and>
            (spec_allow_list roles = [] \<or> ''NA'' \<in> set (spec_allow_list roles))) \<and>
         (spec_yields roles ''NA'' \<longrightarrow>
            tokens roles = [] \<or> ''NA'' \<in> set (spec_allow_list roles) \<or>
            (spec_allow_list roles = [] \<and> ''NA'' \<notin> set (spec_deny_list roles)))"
proof -
  let ?it = "(new_iterator (Some (Some es)) roles)\<lparr>index := i\<rparr>"
  have r: "role_of (es ! i) = ''NA''"
    using assms(2) by (simp add: role_of_def)
  have p: "role_passes ?it ''NA'' = spec_yields roles ''NA''"
    by (simp add: role_passes_index new_iterator_passes)
  have l: "linkedWorkItems ?it = Some (Some es)" "index ?it = i"
    by (simp_all add: new_iterator_fields)
  have sc: "scan es ?it =
      (if spec_yields roles ''NA''
       then (Inr (LinkedWorkitem ''NA'' u), ?it\<lparr>index := i + 1\<rparr>)
       else scan es (?it\<lparr>index := i + 1\<rparr>))"
    using scan_step[of ?it es] assms l r p by simp
  have n: "next_item ?it =
      (if spec_yields roles ''NA''
       then (Inr (LinkedWorkitem ''NA'' u), ?it\<lparr>index := i + 1\<rparr>)
       else next_item (?it\<lparr>index := i + 1\<rparr>))"
    using l sc by (simp add: next_item_def handle_next_def)
  have y: "spec_yields roles ''NA'' \<longleftrightarrow>
            ''NA'' \<notin> set (spec_deny_list roles) \<and>
            (spec_allow_list roles = [] \<or> ''NA'' \<in> set (spec_allow_list roles))"
    by (auto simp: spec_yields_def)
  from r n y show ?thesis by auto
qed

text \<open>A run of C9's theorem on the second example edge, which has no role.\<close>

theorem edge_without_role_gets_sentinel_witness:
  "(1::nat) < length example_edges \<and> role_id (example_edges ! 1) = None \<and>
   workItemURI (example_edges ! 1) = Some ''B'' \<and>
   spec_yields (Roles [''NA'', ''~parent'']) ''NA'' \<and>
   next_item ((new_iterator (Some (Some example_edges)) (Roles [''NA'', ''~parent'']))\<lparr>index := 1\<rparr>) =
     (Inr (LinkedWorkitem ''NA'' ''B''),
      (new_iterator (Some (Some example_edges)) (Roles [''NA'', ''~parent'']))\<lparr>index := 1 + 1\<rparr>) \<and>
   \<not> spec_yields (Roles [''verifies'']) ''NA''"
proof -
  have h: "(1::nat) < length example_edges" "role_id (example_edges ! 1) = None"
    "workItemURI (example_edges ! 1) = Some ''B''"
    by code_simp+
  have s: "spec_yields (Roles [''NA'', ''~parent'']) ''NA''"
    "\<not> spec_yields (Roles [''verifies'']) ''NA''" by code_simp+
  from edge_without_role_gets_sentinel[OF h, of "Roles [''NA'', ''~parent'']"] h s
  show ?thesis by simp
qed

text \<open>
  Claim C10. Consuming an iterator always ends with the end-of-sequence signal and
  never with a fault: over the container \<^verbatim>\<open>None\<close> and over a container without the
  list of edges it gives the empty sequence, and over a list of edges it gives the
  passing edges up to the first edge without a target (the sequence is cut there).
  No call of \<^verbatim>\<open>__next__\<close> raises anything but \<^verbatim>\<open>StopIteration\<close>.
\<close>

theorem iteration_ends_without_fault:
  "to_list (new_iterator None roles) = Inr [] \<and>
   to_list (new_iterator (Some None) roles) = Inr [] \<and>
   to_list (new_iterator (Some (Some es)) roles) =
     Inr (map edge_of (filter (\<lambda>obj. spec_yields roles (role_of obj))
            (takeWhile has_target es))) \<and>
   (fst (next_item it) = Inl StopIteration \<or> (\<exists>x. fst (next_item it) = Inr x))"
  using to_list_yielded[of "new_iterator (Some (Some es)) roles" es]
    to_list_absent[of "new_iterator None roles"] to_list_absent[of "new_iterator (Some None) roles"]
    next_item_fault_free[of it]
  by (simp add: new_iterator_fields yielded_def new_iterator_passes)

text \<open>A run of C10's theorem on edges the second of which has no target.\<close>

theorem iteration_ends_without_fault_witness:
  "to_list (new_iterator (Some (Some broken_edges)) NoRoles) =
     Inr [LinkedWorkitem ''verifies'' ''A''] \<and>
   fst (next_item ((new_iterator (Some (Some broken_edges)) NoRoles)\<lparr>index := 1\<rparr>)) =
     Inl StopIteration"
proof -
  have e: "map edge_of (filter (\<lambda>obj. spec_yields NoRoles (role_of obj))
            (takeWhile has_target broken_edges)) = [LinkedWorkitem ''verifies'' ''A'']"
    by code_simp
  have n: "fst (next_item ((new_iterator (Some (Some broken_edges)) NoRoles)\<lparr>index := 1\<rparr>)) =
     Inl StopIteration"
    by code_simp
  from iteration_ends_without_fault[of NoRoles broken_edges] e n show ?thesis by simp
qed

end
